theory Spec2Isabelle
  imports Main "HOL-Library.Word"
begin

section \<open>JavaScript values\<close>

text \<open>
  The transcript transforms of \<^verbatim>\<open>session-transcript-repair.ts\<close> work on loosely typed
  messages: every field is read defensively (\<^verbatim>\<open>typeof\<close>, \<^verbatim>\<open>Array.isArray\<close>, \<^verbatim>\<open>in\<close>).
  The model therefore keeps messages and content blocks as plain JavaScript values.
  A string is its sequence of UTF-16 code units, which is what \<^verbatim>\<open>length\<close> and \<^verbatim>\<open>slice\<close>
  count. An object is its list of own properties in insertion order; property names
  are the ASCII identifiers of the source. Numbers are restricted to integers
  (timestamps).
\<close>

type_synonym jsstring = "16 word list"

datatype jsval =
    JUndefined
  | JNull
  | JBool bool
  | JNum int
  | JStr jsstring
  | JArr "jsval list"
  | JObj "(string \<times> jsval) list"

definition ascii :: "string \<Rightarrow> jsstring" where
  "ascii s = map (\<lambda>c. word_of_nat (of_char c)) s"

text \<open>\<^verbatim>\<open>msg && typeof msg === "object"\<close>: arrays are objects too, \<^verbatim>\<open>null\<close> is excluded.\<close>

fun isObject :: "jsval \<Rightarrow> bool" where
  "isObject (JArr _) = True"
| "isObject (JObj _) = True"
| "isObject _ = False"

text \<open>Property read \<^verbatim>\<open>v.k\<close>; a missing property reads as \<^verbatim>\<open>undefined\<close>.\<close>

fun getProp :: "jsval \<Rightarrow> string \<Rightarrow> jsval" where
  "getProp (JObj fs) k = (case map_of fs k of Some v \<Rightarrow> v | None \<Rightarrow> JUndefined)"
| "getProp _ k = JUndefined"

text \<open>\<^verbatim>\<open>k in v\<close> for an object \<^verbatim>\<open>v\<close>.\<close>

fun hasProp :: "jsval \<Rightarrow> string \<Rightarrow> bool" where
  "hasProp (JObj fs) k = (map_of fs k \<noteq> None)"
| "hasProp _ k = False"

text \<open>\<^verbatim>\<open>{ ...v, k: x }\<close>: an existing property keeps its place, a new one is appended.\<close>

fun setField :: "string \<Rightarrow> jsval \<Rightarrow> (string \<times> jsval) list \<Rightarrow> (string \<times> jsval) list" where
  "setField k x [] = [(k, x)]"
| "setField k x ((k', y) # fs) = (if k' = k then (k, x) # fs else (k', y) # setField k x fs)"

fun spreadWith :: "jsval \<Rightarrow> string \<Rightarrow> jsval \<Rightarrow> jsval" where
  "spreadWith (JObj fs) k x = JObj (setField k x fs)"
| "spreadWith _ k x = JObj [(k, x)]"

text \<open>Truthiness, as tested by \<^verbatim>\<open>!v\<close>, \<^verbatim>\<open>v ? a : b\<close> and \<^verbatim>\<open>v || w\<close>.\<close>

fun truthy :: "jsval \<Rightarrow> bool" where
  "truthy JUndefined = False"
| "truthy JNull = False"
| "truthy (JBool b) = b"
| "truthy (JNum n) = (n \<noteq> 0)"
| "truthy (JStr s) = (s \<noteq> [])"
| "truthy (JArr _) = True"
| "truthy (JObj _) = True"

text \<open>\<^verbatim>\<open>v !== undefined && v !== null\<close>, also the test behind \<^verbatim>\<open>v ?? w\<close>.\<close>

fun nonNullish :: "jsval \<Rightarrow> bool" where
  "nonNullish JUndefined = False"
| "nonNullish JNull = False"
| "nonNullish _ = True"

text \<open>\<^verbatim>\<open>parts.join(sep)\<close> on an array of strings.\<close>

fun joinWith :: "jsstring \<Rightarrow> jsstring list \<Rightarrow> jsstring" where
  "joinWith sep [] = []"
| "joinWith sep [s] = s"
| "joinWith sep (s # t # ss) = s @ sep @ joinWith sep (t # ss)"

text \<open>
  The return value of a transform that hands back either the array it was given or a
  newly built one (\<^verbatim>\<open>changed ? out : messages\<close>).
\<close>

datatype 'a arrayRef = SameAsInput | NewArray "'a list"

fun deref :: "'a list \<Rightarrow> 'a arrayRef \<Rightarrow> 'a list" where
  "deref input SameAsInput = input"
| "deref input (NewArray xs) = xs"

section \<open>Tool calls and tool results\<close>

record ToolCallLike =
  tc_id :: jsstring
  tc_name :: "jsstring option"

definition TOOL_CALL_TYPES :: "jsstring set" where
  "TOOL_CALL_TYPES = {ascii ''toolCall'', ascii ''toolUse'', ascii ''functionCall''}"

fun extractToolCallsFromBlocks :: "jsval list \<Rightarrow> ToolCallLike list" where
  "extractToolCallsFromBlocks [] = []"
| "extractToolCallsFromBlocks (block # blocks) =
     (if \<not> isObject block then extractToolCallsFromBlocks blocks
      else case getProp block ''id'' of
        JStr i \<Rightarrow>
          (if i = [] then extractToolCallsFromBlocks blocks
           else if getProp block ''type'' = JStr (ascii ''toolCall'')
                 \<or> getProp block ''type'' = JStr (ascii ''toolUse'')
                 \<or> getProp block ''type'' = JStr (ascii ''functionCall'')
           then \<lparr>tc_id = i,
                 tc_name = (case getProp block ''name'' of JStr n \<Rightarrow> Some n | _ \<Rightarrow> None)\<rparr>
                # extractToolCallsFromBlocks blocks
           else extractToolCallsFromBlocks blocks)
      | _ \<Rightarrow> extractToolCallsFromBlocks blocks)"

definition extractToolCallsFromAssistant :: "jsval \<Rightarrow> ToolCallLike list" where
  "extractToolCallsFromAssistant msg =
     (case getProp msg ''content'' of
        JArr content \<Rightarrow> extractToolCallsFromBlocks content
      | _ \<Rightarrow> [])"

definition isToolCallBlock :: "jsval \<Rightarrow> bool" where
  "isToolCallBlock block =
     (isObject block \<and>
      (case getProp block ''type'' of JStr t \<Rightarrow> t \<in> TOOL_CALL_TYPES | _ \<Rightarrow> False))"

definition hasToolCallInput :: "jsval \<Rightarrow> bool" where
  "hasToolCallInput block =
     (let hasInput = (if hasProp block ''input'' then nonNullish (getProp block ''input'') else False);
          hasArguments =
            (if hasProp block ''arguments'' then nonNullish (getProp block ''arguments'') else False)
      in hasInput \<or> hasArguments)"

definition extractToolResultId :: "jsval \<Rightarrow> jsstring option" where
  "extractToolResultId msg =
     (case getProp msg ''toolCallId'' of
        JStr i \<Rightarrow>
          (if i \<noteq> [] then Some i
           else (case getProp msg ''toolUseId'' of
                   JStr u \<Rightarrow> (if u \<noteq> [] then Some u else None)
                 | _ \<Rightarrow> None))
      | _ \<Rightarrow>
          (case getProp msg ''toolUseId'' of
             JStr u \<Rightarrow> (if u \<noteq> [] then Some u else None)
           | _ \<Rightarrow> None))"

definition MISSING_TOOL_RESULT_TEXT :: jsstring where
  "MISSING_TOOL_RESULT_TEXT = ascii
     ''[openclaw] missing tool result in session history; inserted synthetic error result for transcript repair.''"

text \<open>
  \<^verbatim>\<open>makeMissingToolResult\<close>; the value of \<^verbatim>\<open>Date.now()\<close> at the call is the
  argument \<open>now\<close>.
\<close>

definition makeMissingToolResult :: "int \<Rightarrow> jsstring \<Rightarrow> jsstring option \<Rightarrow> jsval" where
  "makeMissingToolResult now toolCallId toolName =
     JObj [(''role'', JStr (ascii ''toolResult'')),
           (''toolCallId'', JStr toolCallId),
           (''toolName'', JStr (case toolName of Some n \<Rightarrow> n | None \<Rightarrow> ascii ''unknown'')),
           (''content'', JArr [JObj [(''type'', JStr (ascii ''text'')),
                                     (''text'', JStr MISSING_TOOL_RESULT_TEXT)]]),
           (''isError'', JBool True),
           (''timestamp'', JNum now)]"

section \<open>Textifier: result text and truncation\<close>

definition TEXTIFY_MAX_RESULT_CHARS :: nat where
  "TEXTIFY_MAX_RESULT_CHARS = 800"

text \<open>The suffix \<^verbatim>\<open>"\<dots> (truncated)"\<close>: U+2026, then the ASCII text.\<close>

definition TRUNCATION_MARKER :: jsstring where
  "TRUNCATION_MARKER = 0x2026 # ascii '' (truncated)''"

definition truncateToolResultForTextify :: "jsstring \<Rightarrow> jsstring" where
  "truncateToolResultForTextify text =
     (if length text \<le> TEXTIFY_MAX_RESULT_CHARS then text
      else take TEXTIFY_MAX_RESULT_CHARS text @ TRUNCATION_MARKER)"

fun collectTexts :: "jsval list \<Rightarrow> jsstring list" where
  "collectTexts [] = []"
| "collectTexts (block # blocks) =
     (if truthy block \<and> isObject block \<and> getProp block ''type'' = JStr (ascii ''text'')
      then (case getProp block ''text'' of
              JStr t \<Rightarrow> t # collectTexts blocks
            | _ \<Rightarrow> collectTexts blocks)
      else collectTexts blocks)"

definition extractToolResultText :: "jsval \<Rightarrow> jsstring" where
  "extractToolResultText msg =
     (case getProp msg ''content'' of
        JStr content \<Rightarrow> truncateToolResultForTextify content
      | JArr content \<Rightarrow>
          (let joined = joinWith (ascii [CHR 0x0A]) (collectTexts content)
           in truncateToolResultForTextify
                (if joined \<noteq> [] then joined else ascii ''(no content)''))
      | _ \<Rightarrow> ascii ''(no content)'')"

section \<open>Tool-call input sanitizer\<close>

record ToolCallInputRepairReport =
  ir_messages :: "jsval arrayRef"
  droppedToolCalls :: nat
  droppedAssistantMessages :: nat

text \<open>The local variables of \<^verbatim>\<open>repairToolCallInputs\<close>.\<close>

record input_repair_state =
  is_out :: "jsval list"
  is_droppedToolCalls :: nat
  is_droppedAssistantMessages :: nat
  is_changed :: bool

definition input_repair_init :: input_repair_state where
  "input_repair_init =
     \<lparr>is_out = [], is_droppedToolCalls = 0, is_droppedAssistantMessages = 0, is_changed = False\<rparr>"

text \<open>The inner loop over the blocks of one message: the kept blocks and the number dropped.\<close>

fun dropInputlessToolCalls :: "jsval list \<Rightarrow> jsval list \<times> nat" where
  "dropInputlessToolCalls [] = ([], 0)"
| "dropInputlessToolCalls (block # blocks) =
     (let (nextContent, droppedInMessage) = dropInputlessToolCalls blocks
      in if isToolCallBlock block \<and> \<not> hasToolCallInput block
         then (nextContent, droppedInMessage + 1)
         else (block # nextContent, droppedInMessage))"

fun repairToolCallInputsLoop :: "input_repair_state \<Rightarrow> jsval list \<Rightarrow> input_repair_state" where
  "repairToolCallInputsLoop st [] = st"
| "repairToolCallInputsLoop st (msg # msgs) =
     (if \<not> isObject msg then
        repairToolCallInputsLoop (st\<lparr>is_out := is_out st @ [msg]\<rparr>) msgs
      else if getProp msg ''role'' \<noteq> JStr (ascii ''assistant'') then
        repairToolCallInputsLoop (st\<lparr>is_out := is_out st @ [msg]\<rparr>) msgs
      else case getProp msg ''content'' of
        JArr content \<Rightarrow>
          (let (nextContent, droppedInMessage) = dropInputlessToolCalls content;
               st1 = (if droppedInMessage > 0
                      then st\<lparr>is_droppedToolCalls := is_droppedToolCalls st + droppedInMessage,
                              is_changed := True\<rparr>
                      else st)
           in if droppedInMessage > 0 then
                (if nextContent = [] then
                   repairToolCallInputsLoop
                     (st1\<lparr>is_droppedAssistantMessages := is_droppedAssistantMessages st1 + 1,
                          is_changed := True\<rparr>) msgs
                 else
                   repairToolCallInputsLoop
                     (st1\<lparr>is_out := is_out st1 @ [spreadWith msg ''content'' (JArr nextContent)]\<rparr>)
                     msgs)
              else repairToolCallInputsLoop (st1\<lparr>is_out := is_out st1 @ [msg]\<rparr>) msgs)
      | _ \<Rightarrow> repairToolCallInputsLoop (st\<lparr>is_out := is_out st @ [msg]\<rparr>) msgs)"

definition repairToolCallInputs :: "jsval list \<Rightarrow> ToolCallInputRepairReport" where
  "repairToolCallInputs messages =
     (let st = repairToolCallInputsLoop input_repair_init messages
      in \<lparr>ir_messages = (if is_changed st then NewArray (is_out st) else SameAsInput),
          droppedToolCalls = is_droppedToolCalls st,
          droppedAssistantMessages = is_droppedAssistantMessages st\<rparr>)"

definition sanitizeToolCallInputs :: "jsval list \<Rightarrow> jsval arrayRef" where
  "sanitizeToolCallInputs messages = ir_messages (repairToolCallInputs messages)"

section \<open>Tool-use / tool-result pairing repair\<close>

record ToolUseRepairReport =
  rp_messages :: "jsval arrayRef"
  added :: "jsval list"
  droppedDuplicateCount :: nat
  droppedOrphanCount :: nat
  moved :: bool

text \<open>The local variables of \<^verbatim>\<open>repairToolUseResultPairing\<close>.\<close>

record repair_state =
  rs_out :: "jsval list"
  rs_added :: "jsval list"
  rs_seenToolResultIds :: "jsstring set"
  rs_droppedDuplicateCount :: nat
  rs_droppedOrphanCount :: nat
  rs_moved :: bool
  rs_changed :: bool

definition repair_init :: repair_state where
  "repair_init =
     \<lparr>rs_out = [], rs_added = [], rs_seenToolResultIds = {}, rs_droppedDuplicateCount = 0,
      rs_droppedOrphanCount = 0, rs_moved = False, rs_changed = False\<rparr>"

definition pushToolResult :: "jsval \<Rightarrow> repair_state \<Rightarrow> repair_state" where
  "pushToolResult msg st =
     (case extractToolResultId msg of
        Some i \<Rightarrow>
          (if i \<in> rs_seenToolResultIds st
           then st\<lparr>rs_droppedDuplicateCount := rs_droppedDuplicateCount st + 1, rs_changed := True\<rparr>
           else st\<lparr>rs_seenToolResultIds := insert i (rs_seenToolResultIds st),
                   rs_out := rs_out st @ [msg]\<rparr>)
      | None \<Rightarrow> st\<lparr>rs_out := rs_out st @ [msg]\<rparr>)"

text \<open>
  The test \<^verbatim>\<open>nextRole === "toolResult"\<close> with \<^verbatim>\<open>id && toolCallIds.has(id)\<close> of the
  lookahead loop: the correlation id of a result that belongs to the current assistant turn.
\<close>

definition spanResultId :: "jsstring set \<Rightarrow> jsval \<Rightarrow> jsstring option" where
  "spanResultId toolCallIds next =
     (if getProp next ''role'' = JStr (ascii ''toolResult'') then
        (case extractToolResultId next of
           Some i \<Rightarrow> (if i \<in> toolCallIds then Some i else None)
         | None \<Rightarrow> None)
      else None)"

text \<open>
  The lookahead loop over \<^verbatim>\<open>messages[j]\<close>, \<^verbatim>\<open>j > i\<close>: it carries the state, the map
  \<^verbatim>\<open>spanResultsById\<close> (in insertion order) and \<^verbatim>\<open>remainder\<close>, and returns them with
  the messages from index \<^verbatim>\<open>j\<close> on, where it stopped.
\<close>

fun scanSpan ::
  "jsstring set \<Rightarrow> repair_state \<Rightarrow> (jsstring \<times> jsval) list \<Rightarrow> jsval list \<Rightarrow> jsval list
   \<Rightarrow> repair_state \<times> (jsstring \<times> jsval) list \<times> jsval list \<times> jsval list" where
  "scanSpan toolCallIds st spanResultsById remainder [] = (st, spanResultsById, remainder, [])"
| "scanSpan toolCallIds st spanResultsById remainder (next # rest) =
     (if \<not> isObject next then
        scanSpan toolCallIds st spanResultsById (remainder @ [next]) rest
      else if getProp next ''role'' = JStr (ascii ''assistant'') then
        (st, spanResultsById, remainder, next # rest)
      else case spanResultId toolCallIds next of
        Some i \<Rightarrow>
          (if i \<in> rs_seenToolResultIds st then
             scanSpan toolCallIds
               (st\<lparr>rs_droppedDuplicateCount := rs_droppedDuplicateCount st + 1, rs_changed := True\<rparr>)
               spanResultsById remainder rest
           else if map_of spanResultsById i = None then
             scanSpan toolCallIds st (spanResultsById @ [(i, next)]) remainder rest
           else scanSpan toolCallIds st spanResultsById remainder rest)
      | None \<Rightarrow>
          (if getProp next ''role'' \<noteq> JStr (ascii ''toolResult'') then
             scanSpan toolCallIds st spanResultsById (remainder @ [next]) rest
           else
             scanSpan toolCallIds
               (st\<lparr>rs_droppedOrphanCount := rs_droppedOrphanCount st + 1, rs_changed := True\<rparr>)
               spanResultsById remainder rest))"

text \<open>
  The loop over \<^verbatim>\<open>toolCalls\<close> after the assistant message was pushed. \<open>clock k\<close> is
  the value of the \<open>k\<close>-th call of \<^verbatim>\<open>Date.now()\<close> in this run; every call so far
  has added one element to \<^verbatim>\<open>added\<close>.
\<close>

fun emitToolResults ::
  "(nat \<Rightarrow> int) \<Rightarrow> (jsstring \<times> jsval) list \<Rightarrow> repair_state \<Rightarrow> ToolCallLike list \<Rightarrow> repair_state" where
  "emitToolResults clock spanResultsById st [] = st"
| "emitToolResults clock spanResultsById st (call # calls) =
     (case map_of spanResultsById (tc_id call) of
        Some existing \<Rightarrow> emitToolResults clock spanResultsById (pushToolResult existing st) calls
      | None \<Rightarrow>
          (let missing = makeMissingToolResult (clock (length (rs_added st))) (tc_id call) (tc_name call);
               st1 = st\<lparr>rs_added := rs_added st @ [missing], rs_changed := True\<rparr>
           in emitToolResults clock spanResultsById (pushToolResult missing st1) calls))"

function repairLoop :: "(nat \<Rightarrow> int) \<Rightarrow> repair_state \<Rightarrow> jsval list \<Rightarrow> repair_state" where
  "repairLoop clock st [] = st"
| "repairLoop clock st (msg # rest) =
     (if \<not> isObject msg then repairLoop clock (st\<lparr>rs_out := rs_out st @ [msg]\<rparr>) rest
      else if getProp msg ''role'' \<noteq> JStr (ascii ''assistant'') then
        (if getProp msg ''role'' \<noteq> JStr (ascii ''toolResult'')
         then repairLoop clock (st\<lparr>rs_out := rs_out st @ [msg]\<rparr>) rest
         else repairLoop clock
                (st\<lparr>rs_droppedOrphanCount := rs_droppedOrphanCount st + 1, rs_changed := True\<rparr>) rest)
      else if getProp msg ''stopReason'' = JStr (ascii ''error'')
              \<or> getProp msg ''stopReason'' = JStr (ascii ''aborted'') then
        repairLoop clock (st\<lparr>rs_out := rs_out st @ [msg]\<rparr>) rest
      else if extractToolCallsFromAssistant msg = [] then
        repairLoop clock (st\<lparr>rs_out := rs_out st @ [msg]\<rparr>) rest
      else
        (let toolCalls = extractToolCallsFromAssistant msg;
             toolCallIds = set (map tc_id toolCalls);
             (st1, spanResultsById, remainder, rest') = scanSpan toolCallIds st [] [] rest;
             st2 = st1\<lparr>rs_out := rs_out st1 @ [msg]\<rparr>;
             st3 = (if spanResultsById \<noteq> [] \<and> remainder \<noteq> []
                    then st2\<lparr>rs_moved := True, rs_changed := True\<rparr> else st2);
             st4 = emitToolResults clock spanResultsById st3 toolCalls;
             st5 = st4\<lparr>rs_out := rs_out st4 @ remainder\<rparr>
         in repairLoop clock st5 rest'))"
  by pat_completeness auto
termination
proof -
  have len: "length (snd (snd (snd (scanSpan ids s sp rem msgs)))) \<le> length msgs"
    for ids s sp rem msgs
    by (induction ids s sp rem msgs rule: scanSpan.induct) (auto split: option.splits)
  have aux: "length yb < Suc (length msgs)"
    if "(a, y) = scanSpan ids s sp rem msgs" "(b, ya) = y" "(c, yb) = ya"
    for a y b ya c yb ids s sp rem msgs
    using that len [of ids s sp rem msgs] by (metis snd_conv le_imp_less_Suc)
  show ?thesis
    by (relation "measure (\<lambda>(clock, st, msgs). length msgs)") (auto intro: aux)
qed

text \<open>The report built by the \<^verbatim>\<open>return\<close> statement from the local variables.\<close>

definition repairReport :: "repair_state \<Rightarrow> ToolUseRepairReport" where
  "repairReport st =
     (let changedOrMoved = (rs_changed st \<or> rs_moved st)
      in \<lparr>rp_messages = (if changedOrMoved then NewArray (rs_out st) else SameAsInput),
          added = rs_added st,
          droppedDuplicateCount = rs_droppedDuplicateCount st,
          droppedOrphanCount = rs_droppedOrphanCount st,
          moved = changedOrMoved\<rparr>)"

definition repairToolUseResultPairing :: "(nat \<Rightarrow> int) \<Rightarrow> jsval list \<Rightarrow> ToolUseRepairReport" where
  "repairToolUseResultPairing clock messages = repairReport (repairLoop clock repair_init messages)"

definition sanitizeToolUseResultPairing :: "(nat \<Rightarrow> int) \<Rightarrow> jsval list \<Rightarrow> jsval arrayRef" where
  "sanitizeToolUseResultPairing clock messages = rp_messages (repairToolUseResultPairing clock messages)"

section \<open>Textifier\<close>

text \<open>
  What \<^verbatim>\<open>textifyToolCallRounds\<close> takes from the JavaScript runtime:
  \<^verbatim>\<open>JSON.stringify\<close> of an argument payload as it is interpolated into a template,
  the string conversion of a tool name that is not a string, and the successive values of
  \<^verbatim>\<open>Date.now()\<close>.
\<close>

record runtime =
  JSON_stringify :: "jsval \<Rightarrow> jsstring"
  String_of :: "jsval \<Rightarrow> jsstring"
  Date_now :: "nat \<Rightarrow> int"

text \<open>Interpolation \<^verbatim>\<open>${v}\<close> in a template literal.\<close>

definition interpolate :: "runtime \<Rightarrow> jsval \<Rightarrow> jsstring" where
  "interpolate rt v = (case v of JStr s \<Rightarrow> s | _ \<Rightarrow> String_of rt v)"

text \<open>The first loop: \<^verbatim>\<open>toolResultById\<close>, the first tool result of every id.\<close>

fun collectToolResults :: "(jsstring \<times> jsval) list \<Rightarrow> jsval list \<Rightarrow> (jsstring \<times> jsval) list" where
  "collectToolResults toolResultById [] = toolResultById"
| "collectToolResults toolResultById (msg # msgs) =
     (if isObject msg \<and> getProp msg ''role'' = JStr (ascii ''toolResult'') then
        (case extractToolResultId msg of
           Some i \<Rightarrow>
             (if map_of toolResultById i = None
              then collectToolResults (toolResultById @ [(i, msg)]) msgs
              else collectToolResults toolResultById msgs)
         | None \<Rightarrow> collectToolResults toolResultById msgs)
      else collectToolResults toolResultById msgs)"

text \<open>The local variables of the main loop of \<^verbatim>\<open>textifyToolCallRounds\<close>.\<close>

record textify_state =
  tx_out :: "jsval list"
  tx_changed :: bool
  tx_consumedToolResultIds :: "jsstring set"
  tx_clockCalls :: nat

definition textify_init :: textify_state where
  "textify_init =
     \<lparr>tx_out = [], tx_changed = False, tx_consumedToolResultIds = {}, tx_clockCalls = 0\<rparr>"

text \<open>
  \<^verbatim>\<open>isToolCallBlock(block) && typeof block.id === "string"\<close>, the test that splits the
  content into \<^verbatim>\<open>toolCallBlocks\<close> and \<^verbatim>\<open>otherBlocks\<close>.
\<close>

definition isTextifiedBlock :: "jsval \<Rightarrow> bool" where
  "isTextifiedBlock block =
     (isToolCallBlock block \<and> (case getProp block ''id'' of JStr _ \<Rightarrow> True | _ \<Rightarrow> False))"

definition toolCallName :: "jsval \<Rightarrow> jsval" where
  "toolCallName tc =
     (if nonNullish (getProp tc ''name'') then getProp tc ''name'' else JStr (ascii ''unknown_tool''))"

definition toolCallSummary :: "runtime \<Rightarrow> jsval \<Rightarrow> jsstring" where
  "toolCallSummary rt tc =
     (let name = toolCallName tc;
          args = (if nonNullish (getProp tc ''input'') then getProp tc ''input''
                  else getProp tc ''arguments'');
          argsStr = (if truthy args then JSON_stringify rt args else ascii ''{}'')
      in ascii ''[Called tool '' @ interpolate rt name @ ascii ''('' @ argsStr @ ascii '')]'')"

text \<open>
  The loop over \<^verbatim>\<open>toolCallBlocks\<close>: it carries \<^verbatim>\<open>textParts\<close>,
  \<^verbatim>\<open>resultMessages\<close>, the consumed ids and the number of clock reads.
\<close>

fun textifyToolCalls ::
  "runtime \<Rightarrow> (jsstring \<times> jsval) list \<Rightarrow> jsstring list \<Rightarrow> jsval list \<Rightarrow> jsstring set \<Rightarrow> nat
   \<Rightarrow> jsval list \<Rightarrow> jsstring list \<times> jsval list \<times> jsstring set \<times> nat" where
  "textifyToolCalls rt toolResultById textParts resultMessages consumed calls [] =
     (textParts, resultMessages, consumed, calls)"
| "textifyToolCalls rt toolResultById textParts resultMessages consumed calls (tc # tcs) =
     (let textParts' = textParts @ [toolCallSummary rt tc]
      in case (case getProp tc ''id'' of JStr i \<Rightarrow> map_of toolResultById i | _ \<Rightarrow> None) of
           Some result \<Rightarrow>
             (let i = (case getProp tc ''id'' of JStr i \<Rightarrow> i | _ \<Rightarrow> []);
                  resultText = extractToolResultText result;
                  fromClock = \<not> nonNullish (getProp result ''timestamp'');
                  timestamp = (if fromClock then JNum (Date_now rt calls)
                               else getProp result ''timestamp'');
                  userMsg = JObj [(''role'', JStr (ascii ''user'')),
                                  (''content'', JStr (ascii ''[Tool '' @ interpolate rt (toolCallName tc)
                                                        @ ascii '' result: '' @ resultText @ ascii '']'')),
                                  (''timestamp'', timestamp)]
              in textifyToolCalls rt toolResultById textParts' (resultMessages @ [userMsg])
                   (insert i consumed) (if fromClock then calls + 1 else calls) tcs)
         | None \<Rightarrow> textifyToolCalls rt toolResultById textParts' resultMessages consumed calls tcs)"

fun textifyLoop ::
  "runtime \<Rightarrow> (jsstring \<times> jsval) list \<Rightarrow> textify_state \<Rightarrow> jsval list \<Rightarrow> textify_state" where
  "textifyLoop rt toolResultById st [] = st"
| "textifyLoop rt toolResultById st (msg # msgs) =
     (if \<not> isObject msg then
        textifyLoop rt toolResultById (st\<lparr>tx_out := tx_out st @ [msg]\<rparr>) msgs
      else if getProp msg ''role'' = JStr (ascii ''toolResult'') then
        (if (case extractToolResultId msg of
               Some i \<Rightarrow> i \<in> tx_consumedToolResultIds st | None \<Rightarrow> False)
         then textifyLoop rt toolResultById (st\<lparr>tx_changed := True\<rparr>) msgs
         else textifyLoop rt toolResultById (st\<lparr>tx_out := tx_out st @ [msg]\<rparr>) msgs)
      else if getProp msg ''role'' \<noteq> JStr (ascii ''assistant'') then
        textifyLoop rt toolResultById (st\<lparr>tx_out := tx_out st @ [msg]\<rparr>) msgs
      else case getProp msg ''content'' of
        JArr content \<Rightarrow>
          (let toolCallBlocks = filter isTextifiedBlock content;
               otherBlocks = filter (\<lambda>block. \<not> isTextifiedBlock block) content
           in if toolCallBlocks = [] then
                textifyLoop rt toolResultById (st\<lparr>tx_out := tx_out st @ [msg]\<rparr>) msgs
              else
                (let (textParts, resultMessages, consumed, calls) =
                       textifyToolCalls rt toolResultById [] [] (tx_consumedToolResultIds st)
                         (tx_clockCalls st) toolCallBlocks;
                     summaryText = joinWith (ascii [CHR 0x0A]) textParts;
                     newContent = otherBlocks @ [JObj [(''type'', JStr (ascii ''text'')),
                                                        (''text'', JStr summaryText)]]
                 in textifyLoop rt toolResultById
                      (st\<lparr>tx_changed := True,
                          tx_consumedToolResultIds := consumed,
                          tx_clockCalls := calls,
                          tx_out := tx_out st @ [spreadWith msg ''content'' (JArr newContent)]
                                      @ resultMessages\<rparr>)
                      msgs))
      | _ \<Rightarrow> textifyLoop rt toolResultById (st\<lparr>tx_out := tx_out st @ [msg]\<rparr>) msgs)"

definition textifyToolCallRounds :: "runtime \<Rightarrow> jsval list \<Rightarrow> jsval arrayRef" where
  "textifyToolCallRounds rt messages =
     (let toolResultById = collectToolResults [] messages;
          st = textifyLoop rt toolResultById textify_init messages
      in if tx_changed st then NewArray (tx_out st) else SameAsInput)"

section \<open>Properties of transcripts\<close>

definition isAssistantMsg :: "jsval \<Rightarrow> bool" where
  "isAssistantMsg msg = (isObject msg \<and> getProp msg ''role'' = JStr (ascii ''assistant''))"

definition isToolResultMsg :: "jsval \<Rightarrow> bool" where
  "isToolResultMsg msg = (isObject msg \<and> getProp msg ''role'' = JStr (ascii ''toolResult''))"

definition isErrorOrAborted :: "jsval \<Rightarrow> bool" where
  "isErrorOrAborted msg =
     (getProp msg ''stopReason'' = JStr (ascii ''error'')
      \<or> getProp msg ''stopReason'' = JStr (ascii ''aborted''))"

text \<open>The invocation ids of a message, in invocation order (none unless it is an assistant message).\<close>

definition invocationIds :: "jsval \<Rightarrow> jsstring list" where
  "invocationIds msg =
     (if isAssistantMsg msg then map tc_id (extractToolCallsFromAssistant msg) else [])"

text \<open>Every tool-invocation id occurs once in the whole transcript.\<close>

definition uniqueInvocationIds :: "jsval list \<Rightarrow> bool" where
  "uniqueInvocationIds msgs = distinct (concat (map invocationIds msgs))"

text \<open>
  \<open>followedByResults ids msgs\<close>: \<open>msgs\<close> starts with one tool result for each id of
  \<open>ids\<close>, in this order, and no further tool result comes directly after them.
\<close>

fun followedByResults :: "jsstring list \<Rightarrow> jsval list \<Rightarrow> bool" where
  "followedByResults [] [] = True"
| "followedByResults [] (msg # msgs) = (\<not> isToolResultMsg msg)"
| "followedByResults (i # ids) [] = False"
| "followedByResults (i # ids) (msg # msgs) =
     (isToolResultMsg msg \<and> extractToolResultId msg = Some i \<and> followedByResults ids msgs)"

text \<open>
  The pairing invariant: every assistant message with invocations, and not stopped by
  \<^verbatim>\<open>error\<close> or \<^verbatim>\<open>aborted\<close>, is directly followed by exactly its results.
\<close>

fun pairingInvariant :: "jsval list \<Rightarrow> bool" where
  "pairingInvariant [] = True"
| "pairingInvariant (msg # msgs) =
     ((if isAssistantMsg msg \<and> \<not> isErrorOrAborted msg \<and> invocationIds msg \<noteq> []
       then followedByResults (invocationIds msg) msgs else True)
      \<and> pairingInvariant msgs)"

text \<open>The correlation ids of the tool-result messages of a transcript, in order.\<close>

fun toolResultIds :: "jsval list \<Rightarrow> jsstring list" where
  "toolResultIds [] = []"
| "toolResultIds (msg # msgs) =
     (if isToolResultMsg msg
      then (case extractToolResultId msg of
              Some i \<Rightarrow> i # toolResultIds msgs
            | None \<Rightarrow> toolResultIds msgs)
      else toolResultIds msgs)"

section \<open>Sample messages\<close>

definition sampleCall :: "string \<Rightarrow> jsval" where
  "sampleCall i =
     JObj [(''type'', JStr (ascii ''toolCall'')), (''id'', JStr (ascii i)),
           (''name'', JStr (ascii ''read'')), (''arguments'', JObj [])]"

definition sampleAssistant :: "jsval list \<Rightarrow> jsval" where
  "sampleAssistant blocks = JObj [(''role'', JStr (ascii ''assistant'')), (''content'', JArr blocks)]"

definition sampleResult :: "string \<Rightarrow> string \<Rightarrow> jsval" where
  "sampleResult i t =
     JObj [(''role'', JStr (ascii ''toolResult'')), (''toolCallId'', JStr (ascii i)),
           (''toolName'', JStr (ascii ''read'')), (''content'', JStr (ascii t)),
           (''isError'', JBool False)]"

definition sampleUser :: "string \<Rightarrow> jsval" where
  "sampleUser t = JObj [(''role'', JStr (ascii ''user'')), (''content'', JStr (ascii t))]"

section \<open>The cases of the repair loop\<close>

text \<open>
  The main loop of \<^verbatim>\<open>repairToolUseResultPairing\<close> treats a message in one of three
  ways: a tool result met outside a span is dropped as an orphan; an assistant message
  with tool calls whose stop reason is neither \<^verbatim>\<open>error\<close> nor \<^verbatim>\<open>aborted\<close> starts a
  turn; every other message is pushed unchanged.
\<close>

definition startsTurn :: "jsval \<Rightarrow> bool" where
  "startsTurn msg =
     (isAssistantMsg msg \<and> \<not> isErrorOrAborted msg \<and> extractToolCallsFromAssistant msg \<noteq> [])"

definition passesThrough :: "jsval \<Rightarrow> bool" where
  "passesThrough msg = (\<not> isToolResultMsg msg \<and> \<not> startsTurn msg)"

definition countOrphan :: "repair_state \<Rightarrow> repair_state" where
  "countOrphan st = st\<lparr>rs_droppedOrphanCount := rs_droppedOrphanCount st + 1, rs_changed := True\<rparr>"

definition pushMsgs :: "jsval list \<Rightarrow> repair_state \<Rightarrow> repair_state" where
  "pushMsgs msgs st = st\<lparr>rs_out := rs_out st @ msgs\<rparr>"

text \<open>The state after a turn, from the state, span results and remainder left by the lookahead.\<close>

definition afterTurn ::
  "(nat \<Rightarrow> int) \<Rightarrow> jsval \<Rightarrow> repair_state \<Rightarrow> (jsstring \<times> jsval) list \<Rightarrow> jsval list \<Rightarrow> repair_state" where
  "afterTurn clock msg st1 sp rem =
     pushMsgs rem
       (emitToolResults clock sp
          (if sp \<noteq> [] \<and> rem \<noteq> []
           then (pushMsgs [msg] st1)\<lparr>rs_moved := True, rs_changed := True\<rparr>
           else pushMsgs [msg] st1)
          (extractToolCallsFromAssistant msg))"

text \<open>
  Every way of setting \<^verbatim>\<open>changed\<close> leaves a trace in the report: the flag
  \<^verbatim>\<open>moved\<close>, one of the two counters, or \<^verbatim>\<open>added\<close>.
\<close>

definition changeAccounted :: "repair_state \<Rightarrow> bool" where
  "changeAccounted st =
     (rs_changed st = (rs_moved st \<or> 0 < rs_droppedDuplicateCount st
        \<or> 0 < rs_droppedOrphanCount st \<or> rs_added st \<noteq> []))"

text \<open>A clock for the sample runs: the \<open>k\<close>-th reading is \<open>k\<close> milliseconds after a fixed instant.\<close>

definition sampleClock :: "nat \<Rightarrow> int" where
  "sampleClock k = 1700000000000 + int k"

text \<open>
  A runtime for the sample runs. Every sample invocation carries the empty object as its
  arguments, whose JSON text is \<^verbatim>\<open>{}\<close>; every sample tool name is a string.
\<close>

fun sampleStringify :: "jsval \<Rightarrow> jsstring" where
  "sampleStringify v = ascii ''{}''"

definition sampleRuntime :: runtime where
  "sampleRuntime =
     \<lparr>JSON_stringify = sampleStringify, String_of = sampleStringify, Date_now = sampleClock\<rparr>"



section \<open>The sanitizer, message by message\<close>

text \<open>The blocks of a message that the sanitizer drops, and what it pushes for the message.\<close>

definition inputlessToolCalls :: "jsval \<Rightarrow> jsval list" where
  "inputlessToolCalls msg =
     (if isAssistantMsg msg then
        (case getProp msg ''content'' of
           JArr content \<Rightarrow> filter (\<lambda>b. isToolCallBlock b \<and> \<not> hasToolCallInput b) content
         | _ \<Rightarrow> [])
      else [])"

definition sanitizedMessage :: "jsval \<Rightarrow> jsval list" where
  "sanitizedMessage msg =
     (if inputlessToolCalls msg = [] then [msg]
      else (case getProp msg ''content'' of
              JArr content \<Rightarrow>
                (if filter (\<lambda>b. \<not> (isToolCallBlock b \<and> \<not> hasToolCallInput b)) content = [] then []
                 else [spreadWith msg ''content''
                         (JArr (filter (\<lambda>b. \<not> (isToolCallBlock b \<and> \<not> hasToolCallInput b)) content))])
            | _ \<Rightarrow> [msg]))"

definition sanitizeStep :: "jsval \<Rightarrow> input_repair_state \<Rightarrow> input_repair_state" where
  "sanitizeStep msg st =
     st\<lparr>is_out := is_out st @ sanitizedMessage msg,
        is_droppedToolCalls := is_droppedToolCalls st + length (inputlessToolCalls msg),
        is_droppedAssistantMessages :=
          is_droppedAssistantMessages st + (if sanitizedMessage msg = [] then 1 else 0),
        is_changed := (is_changed st \<or> inputlessToolCalls msg \<noteq> [])\<rparr>"

section \<open>Valid invocation blocks\<close>

text \<open>
  Every block of a message that is typed as a tool invocation carries an arguments
  payload, respectively a non-empty string id.
\<close>

definition blocksHaveInput :: "jsval \<Rightarrow> bool" where
  "blocksHaveInput msg =
     (case getProp msg ''content'' of
        JArr blocks \<Rightarrow> list_all (\<lambda>b. \<not> isToolCallBlock b \<or> hasToolCallInput b) blocks
      | _ \<Rightarrow> True)"

definition blocksHaveId :: "jsval \<Rightarrow> bool" where
  "blocksHaveId msg =
     (case getProp msg ''content'' of
        JArr blocks \<Rightarrow>
          list_all (\<lambda>b. \<not> isToolCallBlock b
                         \<or> (case getProp b ''id'' of JStr i \<Rightarrow> i \<noteq> [] | _ \<Rightarrow> False)) blocks
      | _ \<Rightarrow> True)"

definition invocationsHaveInput :: "jsval list \<Rightarrow> bool" where
  "invocationsHaveInput msgs = list_all (\<lambda>m. \<not> isAssistantMsg m \<or> blocksHaveInput m) msgs"

definition invocationsHaveId :: "jsval list \<Rightarrow> bool" where
  "invocationsHaveId msgs = list_all (\<lambda>m. \<not> isAssistantMsg m \<or> blocksHaveId m) msgs"

text \<open>The sanitizer followed by the pairing repairer, as the pipeline applies them.\<close>

definition sanitizeThenRepair :: "(nat \<Rightarrow> int) \<Rightarrow> jsval list \<Rightarrow> jsval list" where
  "sanitizeThenRepair clock messages =
     (let sanitized = deref messages (sanitizeToolCallInputs messages)
      in deref sanitized (sanitizeToolUseResultPairing clock sanitized))"

definition sampleCallNoId :: jsval where
  "sampleCallNoId =
     JObj [(''type'', JStr (ascii ''toolCall'')), (''name'', JStr (ascii ''read'')),
           (''arguments'', JObj [])]"

section \<open>The lookahead loop, message by message\<close>

text \<open>One round of the lookahead loop on a message that is not an assistant message.\<close>

definition countDuplicate :: "repair_state \<Rightarrow> repair_state" where
  "countDuplicate st =
     st\<lparr>rs_droppedDuplicateCount := rs_droppedDuplicateCount st + 1, rs_changed := True\<rparr>"

definition scanStep ::
  "jsstring set \<Rightarrow> jsval \<Rightarrow> repair_state \<times> (jsstring \<times> jsval) list \<times> jsval list
   \<Rightarrow> repair_state \<times> (jsstring \<times> jsval) list \<times> jsval list" where
  "scanStep ids next acc =
     (case acc of (st, sp, rem) \<Rightarrow>
        if \<not> isToolResultMsg next then (st, sp, rem @ [next])
        else (case spanResultId ids next of
                Some i \<Rightarrow>
                  (if i \<in> rs_seenToolResultIds st then (countDuplicate st, sp, rem)
                   else if map_of sp i = None then (st, sp @ [(i, next)], rem)
                   else (st, sp, rem))
              | None \<Rightarrow> (countOrphan st, sp, rem)))"

definition sampleCallNoInput :: "string \<Rightarrow> jsval" where
  "sampleCallNoInput i =
     JObj [(''type'', JStr (ascii ''toolCall'')), (''id'', JStr (ascii i)),
           (''name'', JStr (ascii ''read''))]"

section \<open>The textifier, message by message\<close>

text \<open>The invocation blocks that the textifier converts to text.\<close>

definition textifiedBlocks :: "jsval \<Rightarrow> jsval list" where
  "textifiedBlocks msg =
     (if isAssistantMsg msg then
        (case getProp msg ''content'' of
           JArr content \<Rightarrow> filter isTextifiedBlock content
         | _ \<Rightarrow> [])
      else [])"

text \<open>The state after an assistant message with invocation blocks has been rewritten.\<close>

definition textifyTurn ::
  "runtime \<Rightarrow> (jsstring \<times> jsval) list \<Rightarrow> jsval \<Rightarrow> textify_state \<Rightarrow> textify_state" where
  "textifyTurn rt toolResultById msg st =
     (case getProp msg ''content'' of
        JArr content \<Rightarrow>
          (case textifyToolCalls rt toolResultById [] [] (tx_consumedToolResultIds st)
                  (tx_clockCalls st) (filter isTextifiedBlock content) of
             (textParts, resultMessages, consumed, calls) \<Rightarrow>
               \<lparr>tx_out = tx_out st
                   @ [spreadWith msg ''content''
                        (JArr (filter (\<lambda>block. \<not> isTextifiedBlock block) content
                               @ [JObj [(''type'', JStr (ascii ''text'')),
                                        (''text'', JStr (joinWith (ascii [CHR 0x0A]) textParts))]]))]
                   @ resultMessages,
                tx_changed = True,
                tx_consumedToolResultIds = consumed,
                tx_clockCalls = calls\<rparr>)
      | _ \<Rightarrow> st)"

text \<open>A tool result whose id has been consumed by an earlier assistant turn.\<close>

definition isConsumedResult :: "textify_state \<Rightarrow> jsval \<Rightarrow> bool" where
  "isConsumedResult st msg =
     (isToolResultMsg msg
      \<and> (case extractToolResultId msg of
            Some i \<Rightarrow> i \<in> tx_consumedToolResultIds st
          | None \<Rightarrow> False))"

text \<open>The messages that replace consumed tool results have the role \<^verbatim>\<open>user\<close>.\<close>

definition isUserText :: "jsval \<Rightarrow> bool" where
  "isUserText m = (getProp m ''role'' = JStr (ascii ''user''))"

section \<open>What the repair loop produces\<close>

text \<open>The messages that the loop appends to \<^verbatim>\<open>out\<close> when it runs on \<open>msgs\<close> from \<open>st\<close>.\<close>

definition produced :: "(nat \<Rightarrow> int) \<Rightarrow> repair_state \<Rightarrow> jsval list \<Rightarrow> jsval list" where
  "produced clock st msgs = drop (length (rs_out st)) (rs_out (repairLoop clock st msgs))"

text \<open>
  The tool results pushed after an assistant message, as a function of the span results,
  the ids seen so far and the number of clock readings so far.
\<close>

fun emitted ::
  "(nat \<Rightarrow> int) \<Rightarrow> (jsstring \<times> jsval) list \<Rightarrow> jsstring set \<Rightarrow> nat \<Rightarrow> ToolCallLike list
   \<Rightarrow> jsval list" where
  "emitted clock sp seen k [] = []"
| "emitted clock sp seen k (call # calls) =
     (case map_of sp (tc_id call) of
        Some existing \<Rightarrow>
          (if tc_id call \<in> seen then emitted clock sp seen k calls
           else existing # emitted clock sp (insert (tc_id call) seen) k calls)
      | None \<Rightarrow>
          (if tc_id call \<in> seen then emitted clock sp seen (k + 1) calls
           else makeMissingToolResult (clock k) (tc_id call) (tc_name call)
                  # emitted clock sp (insert (tc_id call) seen) (k + 1) calls))"

text \<open>Every span result is a tool result of the current turn, stored under its own id.\<close>

definition wellKeyed :: "jsstring set \<Rightarrow> (jsstring \<times> jsval) list \<Rightarrow> bool" where
  "wellKeyed ids sp = (\<forall>(i, r)\<in>set sp. isToolResultMsg r \<and> spanResultId ids r = Some i)"

text \<open>The first message of a list with the correlation id \<open>i\<close>.\<close>

definition findResult :: "jsstring \<Rightarrow> jsval list \<Rightarrow> jsval option" where
  "findResult i rs = find (\<lambda>r. extractToolResultId r = Some i) rs"

text \<open>A message list that is empty or starts with an assistant message.\<close>

definition stopsScan :: "jsval list \<Rightarrow> bool" where
  "stopsScan msgs = (case msgs of [] \<Rightarrow> True | m # _ \<Rightarrow> isAssistantMsg m)"

section \<open>Orphan tool results\<close>

text \<open>
  The number of tool-result messages of a transcript that lie outside the span of an
  assistant turn invoking their id. \<open>cur\<close> is the set of invocation ids of the turn whose
  span the scan is in; it is empty before the first assistant message and after an
  assistant message that starts no turn.
\<close>

fun orphanResults :: "jsstring set \<Rightarrow> jsval list \<Rightarrow> nat" where
  "orphanResults cur [] = 0"
| "orphanResults cur (m # ms) =
     (if isAssistantMsg m then
        orphanResults (if startsTurn m then set (invocationIds m) else {}) ms
      else if isToolResultMsg m
              \<and> (case extractToolResultId m of Some i \<Rightarrow> i \<notin> cur | None \<Rightarrow> True)
      then 1 + orphanResults cur ms
      else orphanResults cur ms)"

text \<open>A tool result whose content is an array with one text block.\<close>

definition sampleBlockResult :: "string \<Rightarrow> string \<Rightarrow> jsval" where
  "sampleBlockResult i t =
     JObj [(''role'', JStr (ascii ''toolResult'')), (''toolCallId'', JStr (ascii i)),
           (''toolName'', JStr (ascii ''read'')),
           (''content'', JArr [JObj [(''type'', JStr (ascii ''text'')), (''text'', JStr (ascii t))]]),
           (''isError'', JBool False)]"

section \<open>Turns that relocate a result\<close>

text \<open>
  A condition on the transcript alone. The span of an assistant turn is the run of
  messages after it up to the next assistant message. \<open>isSpanResult ids seen r\<close>: the
  message \<open>r\<close> is a tool result whose correlation id is one of \<open>ids\<close> (the ids the turn
  invokes) and none of \<open>seen\<close> (the ids invoked by the turns before it).
  \<open>turnRelocates seen msgs\<close>: some turn of the transcript has a span result in its span
  together with a message of the span that is not a tool result (the remainder is
  non-empty).
\<close>

definition isSpanResult :: "jsstring set \<Rightarrow> jsstring set \<Rightarrow> jsval \<Rightarrow> bool" where
  "isSpanResult ids seen r =
     (isToolResultMsg r
      \<and> (case extractToolResultId r of
            Some i \<Rightarrow> i \<in> ids \<and> i \<notin> seen
          | None \<Rightarrow> False))"

definition spanOf :: "jsval list \<Rightarrow> jsval list" where
  "spanOf ms = takeWhile (\<lambda>x. \<not> isAssistantMsg x) ms"

fun turnRelocates :: "jsstring set \<Rightarrow> jsval list \<Rightarrow> bool" where
  "turnRelocates seen [] = False"
| "turnRelocates seen (m # ms) =
     (if startsTurn m then
        (list_ex (isSpanResult (set (invocationIds m)) seen) (spanOf ms)
         \<and> list_ex (\<lambda>x. \<not> isToolResultMsg x) (spanOf ms))
        \<or> turnRelocates (seen \<union> set (invocationIds m)) ms
      else turnRelocates seen ms)"

section \<open>The text embedded for a textified result\<close>

text \<open>
  The text of a tool result: its raw string content, or the text blocks of its array
  content joined by newlines. A result whose content is neither a string nor an array has
  no text.
\<close>

definition resultText :: "jsval \<Rightarrow> jsstring option" where
  "resultText result =
     (case getProp result ''content'' of
        JStr content \<Rightarrow> Some content
      | JArr blocks \<Rightarrow> Some (joinWith (ascii [CHR 0x0A]) (collectTexts blocks))
      | _ \<Rightarrow> None)"

definition hasStringContent :: "jsval \<Rightarrow> bool" where
  "hasStringContent result = (case getProp result ''content'' of JStr _ \<Rightarrow> True | _ \<Rightarrow> False)"

text \<open>
  The text that stands for a result in the converted message, by the length of the
  result's text in UTF-16 code units: the text itself up to 800, the first 800 code units
  followed by U+2026 and \<^verbatim>\<open> (truncated)\<close> above 800; and \<^verbatim>\<open>(no content)\<close> for a result
  without text and for array content whose text is empty.
\<close>

definition embeddedText :: "jsval \<Rightarrow> jsstring" where
  "embeddedText result =
     (case resultText result of
        None \<Rightarrow> ascii ''(no content)''
      | Some text \<Rightarrow>
          if text = [] \<and> \<not> hasStringContent result then ascii ''(no content)''
          else if length text \<le> 800 then text
          else take 800 text @ 0x2026 # ascii '' (truncated)'')"

text \<open>The first tool result of the transcript that carries the id \<open>i\<close>.\<close>

definition firstResult :: "jsstring \<Rightarrow> jsval list \<Rightarrow> jsval option" where
  "firstResult i msgs = find (\<lambda>m. isToolResultMsg m \<and> extractToolResultId m = Some i) msgs"

text \<open>
  The result consumed by an invocation block, and the content of the user message that
  replaces it: \<^verbatim>\<open>[Tool <name> result: <text>]\<close>.
\<close>

definition consumedResult :: "jsval list \<Rightarrow> jsval \<Rightarrow> jsval option" where
  "consumedResult msgs tc =
     (case getProp tc ''id'' of JStr i \<Rightarrow> firstResult i msgs | _ \<Rightarrow> None)"

definition convertedContent :: "runtime \<Rightarrow> jsval \<Rightarrow> jsval \<Rightarrow> jsval" where
  "convertedContent rt tc result =
     JStr (ascii ''[Tool '' @ interpolate rt (toolCallName tc) @ ascii '' result: ''
           @ embeddedText result @ ascii '']'')"

text \<open>
  The contents of the user messages that follow the rewritten assistant message \<open>msg\<close>,
  one for every invocation block whose id has a tool result in the transcript, in the
  order of the blocks.
\<close>

definition convertedContents :: "runtime \<Rightarrow> jsval list \<Rightarrow> jsval \<Rightarrow> jsval list" where
  "convertedContents rt msgs msg =
     List.map_filter (\<lambda>tc. map_option (convertedContent rt tc) (consumedResult msgs tc))
       (textifiedBlocks msg)"

text \<open>The assistant message with its invocation blocks replaced by the summary text.\<close>

definition textifiedAssistant :: "runtime \<Rightarrow> jsval \<Rightarrow> jsval" where
  "textifiedAssistant rt msg =
     (case getProp msg ''content'' of
        JArr content \<Rightarrow>
          spreadWith msg ''content''
            (JArr (filter (\<lambda>block. \<not> isTextifiedBlock block) content
                   @ [JObj [(''type'', JStr (ascii ''text'')),
                            (''text'', JStr (joinWith (ascii [CHR 0x0A])
                                (map (toolCallSummary rt) (filter isTextifiedBlock content))))]]))
      | _ \<Rightarrow> msg)"

text \<open>A tool result whose string content has 801 code units.\<close>

definition sampleLongResult :: "string \<Rightarrow> jsval" where
  "sampleLongResult i =
     JObj [(''role'', JStr (ascii ''toolResult'')), (''toolCallId'', JStr (ascii i)),
           (''toolName'', JStr (ascii ''read'')), (''content'', JStr (replicate 801 0x78)),
           (''isError'', JBool False)]"

section \<open>Strings\<close>

lemma ascii_length [simp]: "length (ascii s) = length s"
  by (simp add: ascii_def)

lemma ascii_Nil [simp]: "ascii [] = []"
  by (simp add: ascii_def)

lemma ascii_Cons: "ascii (c # s) = word_of_nat (of_char c) # ascii s"
  by (simp add: ascii_def)

lemma ascii_eq_Nil [simp]: "(ascii s = []) = (s = [])" "([] = ascii s) = (s = [])"
  by (auto simp: ascii_def)

lemma of_char_bound: "(of_char c :: nat) < 65536"
proof -
  have "(of_char c :: nat) mod 256 < 256" by simp
  then have "(of_char c :: nat) < 256" unfolding of_char_mod_256 .
  then show ?thesis by linarith
qed

lemma code_unit_inj:
  "((word_of_nat (of_char c) :: 16 word) = word_of_nat (of_char d)) = (c = d)"
proof
  assume h: "(word_of_nat (of_char c) :: 16 word) = word_of_nat (of_char d)"
  from h have "unat (word_of_nat (of_char c) :: 16 word) = unat (word_of_nat (of_char d) :: 16 word)"
    by simp
  then have "(of_char c :: nat) = of_char d"
    using of_char_bound [of c] of_char_bound [of d]
    by (simp add: unat_of_nat take_bit_nat_eq_self)
  then show "c = d" by simp
qed simp

lemma ascii_eq_iff [simp]: "(ascii s = ascii t) = (s = t)"
proof (induction s arbitrary: t)
  case Nil
  then show ?case by (auto simp: ascii_def)
next
  case (Cons c s)
  then show ?case by (cases t) (auto simp: ascii_Cons code_unit_inj)
qed

lemmas sample_defs = sampleCall_def sampleAssistant_def sampleResult_def sampleUser_def

lemmas repair_defs =
  repairLoop.simps(2) repairToolUseResultPairing_def repairReport_def repair_init_def extractToolCallsFromAssistant_def
  spanResultId_def extractToolResultId_def pushToolResult_def makeMissingToolResult_def

lemmas property_defs =
  isAssistantMsg_def isToolResultMsg_def isErrorOrAborted_def invocationIds_def
  uniqueInvocationIds_def extractToolCallsFromAssistant_def extractToolResultId_def

section \<open>Pairing repair on transcripts with repeated or reordered results (C1, C2)\<close>

text \<open>
  C1. The transcript is an assistant turn invoking \<^verbatim>\<open>a\<close> then \<^verbatim>\<open>b\<close>, followed by the
  result of \<^verbatim>\<open>b\<close> and then the result of \<^verbatim>\<open>a\<close>; its invocation ids are unique. The
  repairer rebuilds the results in invocation order but sees no change and returns the
  input, in which the results are not in invocation order: the pairing invariant fails.
\<close>

theorem repair_returns_reordered_results:
  "uniqueInvocationIds
     [sampleAssistant [sampleCall ''a'', sampleCall ''b''], sampleResult ''b'' ''x'', sampleResult ''a'' ''y'']
   \<and> rp_messages (repairToolUseResultPairing clock
        [sampleAssistant [sampleCall ''a'', sampleCall ''b''], sampleResult ''b'' ''x'', sampleResult ''a'' ''y''])
       = SameAsInput
   \<and> \<not> pairingInvariant (deref
        [sampleAssistant [sampleCall ''a'', sampleCall ''b''], sampleResult ''b'' ''x'', sampleResult ''a'' ''y'']
        (rp_messages (repairToolUseResultPairing clock
           [sampleAssistant [sampleCall ''a'', sampleCall ''b''], sampleResult ''b'' ''x'',
            sampleResult ''a'' ''y''])))"
  by (simp add: repair_defs property_defs sample_defs)

text \<open>
  C2. The transcript is an assistant turn invoking \<^verbatim>\<open>a\<close> followed by two results for
  \<^verbatim>\<open>a\<close>. The second result is skipped in the rebuilt sequence without being counted or
  marked as a change, so the repairer returns the input, where both results share the id.
\<close>

theorem repair_keeps_duplicate_in_span:
  "repairToolUseResultPairing clock
     [sampleAssistant [sampleCall ''a''], sampleResult ''a'' ''first'', sampleResult ''a'' ''second'']
     = \<lparr>rp_messages = SameAsInput, added = [], droppedDuplicateCount = 0,
        droppedOrphanCount = 0, moved = False\<rparr>
   \<and> toolResultIds (deref
        [sampleAssistant [sampleCall ''a''], sampleResult ''a'' ''first'', sampleResult ''a'' ''second'']
        (rp_messages (repairToolUseResultPairing clock
           [sampleAssistant [sampleCall ''a''], sampleResult ''a'' ''first'',
            sampleResult ''a'' ''second''])))
       = [ascii ''a'', ascii ''a'']"
  by (simp add: repair_defs property_defs sample_defs)

section \<open>The repair loop, case by case\<close>

lemma repairLoop_pass:
  "passesThrough msg \<Longrightarrow> repairLoop clock st (msg # rest) = repairLoop clock (pushMsgs [msg] st) rest"
  by (auto simp: passesThrough_def startsTurn_def isToolResultMsg_def isAssistantMsg_def
      isErrorOrAborted_def pushMsgs_def)

lemma repairLoop_orphan:
  "isToolResultMsg msg \<Longrightarrow> repairLoop clock st (msg # rest) = repairLoop clock (countOrphan st) rest"
  by (auto simp: isToolResultMsg_def countOrphan_def)

lemma repairLoop_turn:
  assumes "startsTurn msg"
    and "scanSpan (set (map tc_id (extractToolCallsFromAssistant msg))) st [] [] rest = (st1, sp, rem, rest')"
  shows "repairLoop clock st (msg # rest) = repairLoop clock (afterTurn clock msg st1 sp rem) rest'"
  using assms
  by (simp add: startsTurn_def isAssistantMsg_def isErrorOrAborted_def afterTurn_def pushMsgs_def Let_def)

lemma msg_cases:
  obtains (Pass) "passesThrough msg" | (Orphan) "isToolResultMsg msg" | (Turn) "startsTurn msg"
  by (auto simp: passesThrough_def)

lemma repairLoop_induct [case_names Nil Pass Orphan Turn]:
  assumes nil: "\<And>clock st. P clock st []"
    and pass: "\<And>clock st msg rest.
      passesThrough msg \<Longrightarrow> P clock (pushMsgs [msg] st) rest \<Longrightarrow> P clock st (msg # rest)"
    and orphan: "\<And>clock st msg rest.
      isToolResultMsg msg \<Longrightarrow> P clock (countOrphan st) rest \<Longrightarrow> P clock st (msg # rest)"
    and turn: "\<And>clock st msg rest st1 sp rem rest'.
      startsTurn msg \<Longrightarrow>
      scanSpan (set (map tc_id (extractToolCallsFromAssistant msg))) st [] [] rest = (st1, sp, rem, rest') \<Longrightarrow>
      P clock (afterTurn clock msg st1 sp rem) rest' \<Longrightarrow> P clock st (msg # rest)"
  shows "P clock st msgs"
proof (induction clock st msgs rule: repairLoop.induct)
  case (1 clock st)
  show ?case by (rule nil)
next
  case (2 clock st msg rest)
  show ?case
  proof (cases msg rule: msg_cases)
    case Pass
    have "P clock (st\<lparr>rs_out := rs_out st @ [msg]\<rparr>) rest"
      using Pass 2
      by (auto simp: passesThrough_def startsTurn_def isToolResultMsg_def isAssistantMsg_def
          isErrorOrAborted_def)
    then show ?thesis using pass [OF Pass] by (simp add: pushMsgs_def)
  next
    case Orphan
    then have "P clock (countOrphan st) rest"
      using "2.IH"(3) by (auto simp: isToolResultMsg_def countOrphan_def)
    then show ?thesis by (rule orphan [OF Orphan])
  next
    case Turn
    obtain st1 sp rem rest' where
      scan: "scanSpan (set (map tc_id (extractToolCallsFromAssistant msg))) st [] [] rest = (st1, sp, rem, rest')"
      by (metis prod_cases4)
    have "P clock (afterTurn clock msg st1 sp rem) rest'"
      using Turn "2.IH"(6) [OF _ _ _ _ refl refl scan [symmetric] refl refl refl refl refl refl]
      by (auto simp: startsTurn_def isAssistantMsg_def isErrorOrAborted_def afterTurn_def pushMsgs_def
          split: if_splits)
    then show ?thesis by (rule turn [OF Turn scan])
  qed
qed

declare repairLoop.simps(2) [simp del]

section \<open>Every change is accounted for in the report\<close>

lemma changeAccounted_pushMsgs [simp]: "changeAccounted (pushMsgs xs st) = changeAccounted st"
  by (simp add: changeAccounted_def pushMsgs_def)

lemma changeAccounted_countOrphan: "changeAccounted st \<Longrightarrow> changeAccounted (countOrphan st)"
  by (simp add: changeAccounted_def countOrphan_def)

lemma changeAccounted_push: "changeAccounted st \<Longrightarrow> changeAccounted (pushToolResult msg st)"
  by (auto simp: changeAccounted_def pushToolResult_def split: option.splits)

lemma changeAccounted_emit:
  "changeAccounted st \<Longrightarrow> changeAccounted (emitToolResults clock sp st calls)"
proof (induction calls arbitrary: st)
  case Nil
  then show ?case by simp
next
  case (Cons call calls)
  show ?case
  proof (cases "map_of sp (tc_id call)")
    case None
    have "changeAccounted (st\<lparr>rs_added := rs_added st @ [m], rs_changed := True\<rparr>)" for m
      using Cons.prems by (simp add: changeAccounted_def)
    then show ?thesis using None by (simp add: Let_def Cons.IH changeAccounted_push)
  next
    case (Some existing)
    then show ?thesis using Cons.prems by (simp add: Cons.IH changeAccounted_push)
  qed
qed

lemma changeAccounted_scan:
  "changeAccounted st \<Longrightarrow> changeAccounted (fst (scanSpan ids st sp rem msgs))"
  by (induction ids st sp rem msgs rule: scanSpan.induct)
     (auto simp: changeAccounted_def split: option.splits)

lemma changeAccounted_afterTurn:
  "changeAccounted st1 \<Longrightarrow> changeAccounted (afterTurn clock msg st1 sp rem)"
proof -
  assume a: "changeAccounted st1"
  have "changeAccounted ((pushMsgs [msg] st1)\<lparr>rs_moved := True, rs_changed := True\<rparr>)"
    by (simp add: changeAccounted_def)
  with a show ?thesis by (simp add: afterTurn_def changeAccounted_emit)
qed

lemma changeAccounted_loop:
  "changeAccounted st \<Longrightarrow> changeAccounted (repairLoop clock st msgs)"
proof (induction clock st msgs rule: repairLoop_induct)
  case (Nil clock st)
  then show ?case by simp
next
  case (Pass clock st msg rest)
  then show ?case by (simp add: repairLoop_pass)
next
  case (Orphan clock st msg rest)
  then show ?case by (simp add: repairLoop_orphan changeAccounted_countOrphan)
next
  case (Turn clock st msg rest st1 sp rem rest')
  have "changeAccounted st1"
    using changeAccounted_scan [OF Turn.prems, of "set (map tc_id (extractToolCallsFromAssistant msg))" "[]" "[]" rest]
    unfolding Turn.hyps(2) by simp
  then show ?case
    using Turn by (simp add: repairLoop_turn changeAccounted_afterTurn)
qed

lemma changeAccounted_init: "changeAccounted repair_init"
  by (simp add: changeAccounted_def repair_init_def)

section \<open>Textifying a result that precedes its assistant turn (C9)\<close>

lemma ascii_append: "ascii s @ ascii t = ascii (s @ t)" "ascii s @ ascii t @ u = ascii (s @ t) @ u"
  by (simp_all add: ascii_def)

lemmas textify_defs =
  textifyToolCallRounds_def textify_init_def isTextifiedBlock_def isToolCallBlock_def
  TOOL_CALL_TYPES_def toolCallName_def toolCallSummary_def interpolate_def
  extractToolResultText_def truncateToolResultForTextify_def TEXTIFY_MAX_RESULT_CHARS_def
  extractToolResultId_def

text \<open>
  C9. The transcript is a tool result for \<^verbatim>\<open>a\<close> followed by the assistant turn that
  invokes \<^verbatim>\<open>a\<close>. The scan pushes the result before its id is marked as consumed, and the
  assistant turn then converts the same result into a user message: the result's content
  is in the output twice, once in its original place and once converted.
\<close>

theorem textify_keeps_preceding_result:
  "textifyToolCallRounds rt [sampleResult ''a'' ''x'', sampleAssistant [sampleCall ''a'']] =
     NewArray
       [sampleResult ''a'' ''x'',
        JObj [(''role'', JStr (ascii ''assistant'')),
              (''content'',
               JArr [JObj [(''type'', JStr (ascii ''text'')),
                           (''text'', JStr (ascii ''[Called tool read(''
                                            @ JSON_stringify rt (JObj []) @ ascii '')]''))]])],
        JObj [(''role'', JStr (ascii ''user'')),
              (''content'', JStr (ascii ''[Tool read result: x]'')),
              (''timestamp'', JNum (Date_now rt 0))]]"
  by (simp add: textify_defs sample_defs ascii_append)

section \<open>Splitting a transcript at an assistant message\<close>

lemma startsTurn_assistant: "startsTurn m \<Longrightarrow> isAssistantMsg m"
  by (simp add: startsTurn_def)

lemma toolResult_not_assistant: "isToolResultMsg m \<Longrightarrow> \<not> isAssistantMsg m"
  by (auto simp: isToolResultMsg_def isAssistantMsg_def)




section \<open>Assistant turns stopped by error or abort (C10)\<close>




section \<open>The lookahead loop, case by case\<close>

lemma scanSpan_stop:
  "isAssistantMsg next \<Longrightarrow> scanSpan ids st sp rem (next # rest) = (st, sp, rem, next # rest)"
  by (simp add: isAssistantMsg_def)

lemma scanSpan_step:
  "\<not> isAssistantMsg next \<Longrightarrow>
   scanSpan ids st sp rem (next # rest) =
     (case scanStep ids next (st, sp, rem) of (st', sp', rem') \<Rightarrow> scanSpan ids st' sp' rem' rest)"
  by (auto simp: isAssistantMsg_def isToolResultMsg_def scanStep_def spanResultId_def
      countDuplicate_def countOrphan_def split: option.splits)

declare scanSpan.simps(2) [simp del]

lemma scanSpan_induct [case_names Nil Stop Step]:
  assumes "\<And>st sp rem. P st sp rem []"
    and "\<And>st sp rem next rest. isAssistantMsg next \<Longrightarrow> P st sp rem (next # rest)"
    and "\<And>st sp rem next rest st' sp' rem'.
          \<not> isAssistantMsg next \<Longrightarrow> scanStep ids next (st, sp, rem) = (st', sp', rem') \<Longrightarrow>
          P st' sp' rem' rest \<Longrightarrow> P st sp rem (next # rest)"
  shows "P st sp rem msgs"
proof (induction msgs arbitrary: st sp rem rule: list.induct)
  case Nil
  show ?case by (rule assms(1))
next
  case (Cons m rest)
  show ?case
  proof (cases "isAssistantMsg m")
    case True
    then show ?thesis by (rule assms(2))
  next
    case False
    obtain st' sp' rem' where s: "scanStep ids m (st, sp, rem) = (st', sp', rem')"
      by (metis prod_cases3)
    show ?thesis by (rule assms(3) [OF False s Cons])
  qed
qed

lemma pushMsgs_simps [simp]:
  "rs_out (pushMsgs xs st) = rs_out st @ xs"
  "rs_added (pushMsgs xs st) = rs_added st"
  "rs_seenToolResultIds (pushMsgs xs st) = rs_seenToolResultIds st"
  "rs_droppedDuplicateCount (pushMsgs xs st) = rs_droppedDuplicateCount st"
  "rs_droppedOrphanCount (pushMsgs xs st) = rs_droppedOrphanCount st"
  "rs_moved (pushMsgs xs st) = rs_moved st"
  "rs_changed (pushMsgs xs st) = rs_changed st"
  by (simp_all add: pushMsgs_def)

lemma countOrphan_simps [simp]:
  "rs_out (countOrphan st) = rs_out st"
  "rs_added (countOrphan st) = rs_added st"
  "rs_seenToolResultIds (countOrphan st) = rs_seenToolResultIds st"
  "rs_droppedDuplicateCount (countOrphan st) = rs_droppedDuplicateCount st"
  "rs_droppedOrphanCount (countOrphan st) = rs_droppedOrphanCount st + 1"
  "rs_moved (countOrphan st) = rs_moved st"
  "rs_changed (countOrphan st) = True"
  by (simp_all add: countOrphan_def)

lemma countDuplicate_simps [simp]:
  "rs_out (countDuplicate st) = rs_out st"
  "rs_added (countDuplicate st) = rs_added st"
  "rs_seenToolResultIds (countDuplicate st) = rs_seenToolResultIds st"
  "rs_droppedDuplicateCount (countDuplicate st) = rs_droppedDuplicateCount st + 1"
  "rs_droppedOrphanCount (countDuplicate st) = rs_droppedOrphanCount st"
  "rs_moved (countDuplicate st) = rs_moved st"
  "rs_changed (countDuplicate st) = True"
  by (simp_all add: countDuplicate_def)

lemma scanStep_frame:
  assumes "scanStep ids m (st, sp, rem) = (st', sp', rem')"
  shows "rs_out st' = rs_out st" and "rs_seenToolResultIds st' = rs_seenToolResultIds st"
    and "rs_added st' = rs_added st" and "rs_moved st' = rs_moved st"
  using assms
  by (auto simp: scanStep_def split: if_splits option.splits)

lemma scanStep_pred:
  assumes "scanStep ids m (st, sp, rem) = (st', sp', rem')"
    and "Q m" and "\<forall>v\<in>snd ` set sp. Q v" and "\<forall>x\<in>set rem. Q x"
  shows "(\<forall>v\<in>snd ` set sp'. Q v) \<and> (\<forall>x\<in>set rem'. Q x)"
  using assms
  by (auto simp: scanStep_def split: if_splits option.splits)

lemma scanSpan_frame:
  "scanSpan ids st sp rem msgs = (st1, sp1, rem1, r) \<Longrightarrow>
   rs_out st1 = rs_out st \<and> rs_seenToolResultIds st1 = rs_seenToolResultIds st
   \<and> rs_added st1 = rs_added st \<and> rs_moved st1 = rs_moved st"
proof (induction st sp rem msgs rule: scanSpan_induct [where ids = ids])
  case (Nil st sp rem)
  then show ?case by simp
next
  case (Stop st sp rem m rest)
  then show ?case by (simp add: scanSpan_stop)
next
  case (Step st sp rem m rest st' sp' rem')
  then show ?case using scanStep_frame [OF Step.hyps(2)] by (simp add: scanSpan_step)
qed

lemma scanSpan_pred:
  "scanSpan ids st sp rem msgs = (st1, sp1, rem1, r) \<Longrightarrow>
   \<forall>m\<in>set msgs. Q m \<Longrightarrow> \<forall>v\<in>snd ` set sp. Q v \<Longrightarrow> \<forall>m\<in>set rem. Q m \<Longrightarrow>
   (\<forall>v\<in>snd ` set sp1. Q v) \<and> (\<forall>m\<in>set rem1. Q m) \<and> (\<forall>m\<in>set r. Q m)"
proof (induction st sp rem msgs rule: scanSpan_induct [where ids = ids])
  case (Nil st sp rem)
  then show ?case by simp
next
  case (Stop st sp rem m rest)
  then show ?case by (simp add: scanSpan_stop)
next
  case (Step st sp rem m rest st' sp' rem')
  have "(\<forall>v\<in>snd ` set sp'. Q v) \<and> (\<forall>x\<in>set rem'. Q x)"
    using scanStep_pred [OF Step.hyps(2), of Q] Step.prems by simp
  then show ?case using Step by (simp add: scanSpan_step)
qed

lemma pushToolResult_out_pred:
  "Q msg \<Longrightarrow> \<forall>m\<in>set (rs_out st). Q m \<Longrightarrow> \<forall>m\<in>set (rs_out (pushToolResult msg st)). Q m"
  by (auto simp: pushToolResult_def split: option.splits)

lemma emitToolResults_out_pred:
  assumes "\<And>n i nm. Q (makeMissingToolResult n i nm)" and "\<forall>v\<in>snd ` set sp. Q v"
  shows "\<forall>m\<in>set (rs_out st). Q m \<Longrightarrow> \<forall>m\<in>set (rs_out (emitToolResults clock sp st calls)). Q m"
proof (induction calls arbitrary: st)
  case Nil
  then show ?case by simp
next
  case (Cons call calls)
  show ?case
  proof (cases "map_of sp (tc_id call)")
    case None
    let ?missing = "makeMissingToolResult (clock (length (rs_added st))) (tc_id call) (tc_name call)"
    let ?st = "pushToolResult ?missing (st\<lparr>rs_added := rs_added st @ [?missing], rs_changed := True\<rparr>)"
    have "\<forall>m\<in>set (rs_out ?st). Q m"
      by (rule pushToolResult_out_pred) (use Cons.prems assms(1) in simp_all)
    then have "\<forall>m\<in>set (rs_out (emitToolResults clock sp ?st calls)). Q m"
      by (rule Cons.IH)
    then show ?thesis using None by (simp add: Let_def)
  next
    case (Some existing)
    then have "(tc_id call, existing) \<in> set sp" by (rule map_of_SomeD)
    then have "Q existing" using assms(2) by force
    then have "\<forall>m\<in>set (rs_out (pushToolResult existing st)). Q m"
      using Cons.prems by (rule pushToolResult_out_pred)
    then have "\<forall>m\<in>set (rs_out (emitToolResults clock sp (pushToolResult existing st) calls)). Q m"
      by (rule Cons.IH)
    then show ?thesis using Some by simp
  qed
qed

lemma afterTurn_out_pred:
  assumes "\<And>n i nm. Q (makeMissingToolResult n i nm)" and "\<forall>v\<in>snd ` set sp. Q v"
    and "\<forall>m\<in>set rem. Q m" and "Q msg" and "\<forall>m\<in>set (rs_out st1). Q m"
  shows "\<forall>m\<in>set (rs_out (afterTurn clock msg st1 sp rem)). Q m"
proof -
  define st3 where "st3 = (if sp \<noteq> [] \<and> rem \<noteq> []
           then (pushMsgs [msg] st1)\<lparr>rs_moved := True, rs_changed := True\<rparr>
           else pushMsgs [msg] st1)"
  have "\<forall>m\<in>set (rs_out st3). Q m"
    using assms(4,5) by (simp add: st3_def)
  then have "\<forall>m\<in>set (rs_out (emitToolResults clock sp st3 (extractToolCallsFromAssistant msg))). Q m"
    by (rule emitToolResults_out_pred [of Q, OF assms(1,2)])
  then show ?thesis using assms(3) unfolding afterTurn_def st3_def [symmetric]
    by (simp add: ball_Un)
qed

lemma repairLoop_out_pred:
  assumes synth: "\<And>n i nm. Q (makeMissingToolResult n i nm)"
  shows "\<forall>m\<in>set (rs_out st). Q m \<Longrightarrow> \<forall>m\<in>set msgs. Q m \<Longrightarrow>
         \<forall>m\<in>set (rs_out (repairLoop clock st msgs)). Q m"
proof (induction clock st msgs rule: repairLoop_induct)
  case (Nil clock st)
  then show ?case by simp
next
  case (Pass clock st msg rest)
  then show ?case by (simp add: repairLoop_pass)
next
  case (Orphan clock st msg rest)
  then show ?case by (simp add: repairLoop_orphan)
next
  case (Turn clock st msg rest st1 sp rem rest')
  have scan: "(\<forall>v\<in>snd ` set sp. Q v) \<and> (\<forall>m\<in>set rem. Q m) \<and> (\<forall>m\<in>set rest'. Q m)"
    using scanSpan_pred [OF Turn.hyps(2), of Q] Turn.prems by simp
  have out1: "rs_out st1 = rs_out st" using scanSpan_frame [OF Turn.hyps(2)] by simp
  have "Q msg" using Turn.prems(2) by simp
  moreover have "\<forall>m\<in>set (rs_out st1). Q m" using out1 Turn.prems(1) by simp
  ultimately have "\<forall>m\<in>set (rs_out (afterTurn clock msg st1 sp rem)). Q m"
    using scan by (intro afterTurn_out_pred [of Q, OF synth]; blast)
  then have "\<forall>m\<in>set (rs_out (repairLoop clock (afterTurn clock msg st1 sp rem) rest')). Q m"
    using scan by (intro Turn.IH; blast)
  then show ?case by (simp only: repairLoop_turn [OF Turn.hyps(1,2)])
qed

section \<open>The sanitizer as a map over the messages\<close>

lemma dropInputless_filter:
  "dropInputlessToolCalls blocks =
     (filter (\<lambda>b. \<not> (isToolCallBlock b \<and> \<not> hasToolCallInput b)) blocks,
      length (filter (\<lambda>b. isToolCallBlock b \<and> \<not> hasToolCallInput b) blocks))"
  by (induction blocks) (auto simp: Let_def)

lemma repairToolCallInputsLoop_step:
  "repairToolCallInputsLoop st (msg # msgs) = repairToolCallInputsLoop (sanitizeStep msg st) msgs"
proof (cases "isAssistantMsg msg")
  case False
  then have "inputlessToolCalls msg = []" by (simp add: inputlessToolCalls_def)
  then show ?thesis using False
    by (cases st) (auto simp: sanitizeStep_def sanitizedMessage_def isAssistantMsg_def)
next
  case True
  show ?thesis
  proof (cases "getProp msg ''content''")
    case (JArr content)
    then show ?thesis using True
      by (cases st)
         (simp add: sanitizeStep_def sanitizedMessage_def inputlessToolCalls_def isAssistantMsg_def
          dropInputless_filter Let_def)
  qed (use True in \<open>cases st; simp add: sanitizeStep_def sanitizedMessage_def inputlessToolCalls_def
          isAssistantMsg_def\<close>)+
qed

lemma sanitize_loop_out:
  "is_out (repairToolCallInputsLoop st msgs) = is_out st @ concat (map sanitizedMessage msgs)"
  by (induction msgs arbitrary: st)
     (simp_all add: repairToolCallInputsLoop_step sanitizeStep_def del: repairToolCallInputsLoop.simps(2))

lemma sanitize_loop_changed:
  "is_changed (repairToolCallInputsLoop st msgs)
     = (is_changed st \<or> (\<exists>m\<in>set msgs. inputlessToolCalls m \<noteq> []))"
  by (induction msgs arbitrary: st)
     (auto simp add: repairToolCallInputsLoop_step sanitizeStep_def simp del: repairToolCallInputsLoop.simps(2))


lemma sanitizedMessage_unchanged:
  "inputlessToolCalls m = [] \<Longrightarrow> sanitizedMessage m = [m]"
  by (simp add: sanitizedMessage_def)

lemma sanitize_unchanged_all:
  "\<forall>m\<in>set msgs. inputlessToolCalls m = [] \<Longrightarrow> concat (map sanitizedMessage msgs) = msgs"
  by (induction msgs) (simp_all add: sanitizedMessage_unchanged)

lemma sanitize_deref:
  "deref msgs (sanitizeToolCallInputs msgs) = concat (map sanitizedMessage msgs)"
  by (auto simp: sanitizeToolCallInputs_def repairToolCallInputs_def Let_def sanitize_loop_out
      sanitize_loop_changed input_repair_init_def sanitize_unchanged_all)

lemma getProp_spreadWith_same:
  "getProp msg k' \<noteq> JUndefined \<Longrightarrow> getProp (spreadWith msg k x) k = x"
proof (cases msg)
  case (JObj fs)
  have "map_of (setField k x fs) k = Some x" by (induction fs) auto
  then show ?thesis using JObj by simp
qed simp_all

lemma getProp_spreadWith_other:
  "k' \<noteq> k \<Longrightarrow> getProp msg k'' \<noteq> JUndefined \<Longrightarrow> getProp (spreadWith msg k x) k' = getProp msg k'"
proof (cases msg)
  case (JObj fs)
  assume "k' \<noteq> k"
  then have "map_of (setField k x fs) k' = map_of fs k'" by (induction fs) auto
  then show ?thesis using JObj by simp
qed simp_all

lemma isObject_spreadWith [simp]: "isObject (spreadWith msg k x)"
  by (cases msg) simp_all

lemma filter_empty_all: "filter P xs = [] \<Longrightarrow> list_all (\<lambda>x. \<not> P x) xs"
  by (induction xs) (auto split: if_splits)

lemma sanitizedMessage_clean:
  assumes "m' \<in> set (sanitizedMessage m)"
  shows "inputlessToolCalls m' = []"
proof (cases "inputlessToolCalls m = []")
  case True
  then show ?thesis using assms by (simp add: sanitizedMessage_def)
next
  case False
  then have asst: "isAssistantMsg m" by (auto simp: inputlessToolCalls_def split: if_splits)
  from False obtain content where c: "getProp m ''content'' = JArr content"
    by (cases "getProp m ''content''") (auto simp: inputlessToolCalls_def split: if_splits)
  let ?kept = "filter (\<lambda>b. \<not> (isToolCallBlock b \<and> \<not> hasToolCallInput b)) content"
  from assms False c have m': "m' = spreadWith m ''content'' (JArr ?kept)"
    by (auto simp: sanitizedMessage_def split: if_splits)
  have "getProp m' ''content'' = JArr ?kept"
    unfolding m' by (rule getProp_spreadWith_same [of m "''content''"]) (simp add: c)
  then show ?thesis by (simp add: inputlessToolCalls_def)
qed

lemma clean_blocksHaveInput:
  assumes "inputlessToolCalls m = []" and "isAssistantMsg m"
  shows "blocksHaveInput m"
proof (cases "getProp m ''content''")
  case (JArr blocks)
  then have "filter (\<lambda>b. isToolCallBlock b \<and> \<not> hasToolCallInput b) blocks = []"
    using assms by (simp add: inputlessToolCalls_def)
  then have "\<forall>b\<in>set blocks. \<not> isToolCallBlock b \<or> hasToolCallInput b"
    by (simp add: filter_empty_conv)
  then show ?thesis using JArr by (simp add: blocksHaveInput_def list_all_iff)
qed (simp_all add: blocksHaveInput_def)

lemma sanitized_invocationsHaveInput:
  "invocationsHaveInput (deref msgs (sanitizeToolCallInputs msgs))"
proof -
  have "\<not> isAssistantMsg m' \<or> blocksHaveInput m'"
    if "m' \<in> set (concat (map sanitizedMessage msgs))" for m'
  proof -
    from that obtain m where "m' \<in> set (sanitizedMessage m)" by auto
    then have "inputlessToolCalls m' = []" by (rule sanitizedMessage_clean)
    then show ?thesis using clean_blocksHaveInput by blast
  qed
  then show ?thesis
    by (simp add: invocationsHaveInput_def sanitize_deref list_all_iff)
qed

section \<open>Invocation blocks after sanitizing and repairing (C4)\<close>

lemma synthetic_not_assistant: "\<not> isAssistantMsg (makeMissingToolResult n i nm)"
  by (simp add: isAssistantMsg_def makeMissingToolResult_def)

lemma repaired_invocationsHaveInput:
  assumes "invocationsHaveInput msgs"
  shows "invocationsHaveInput (deref msgs (sanitizeToolUseResultPairing clock msgs))"
proof -
  let ?Q = "\<lambda>m. \<not> isAssistantMsg m \<or> blocksHaveInput m"
  have "\<forall>m\<in>set (rs_out (repairLoop clock repair_init msgs)). ?Q m"
    by (rule repairLoop_out_pred)
       (use assms in \<open>simp_all add: synthetic_not_assistant repair_init_def invocationsHaveInput_def
          list_all_iff\<close>)
  then show ?thesis
    using assms
    by (simp add: sanitizeToolUseResultPairing_def repairToolUseResultPairing_def repairReport_def
        Let_def invocationsHaveInput_def list_all_iff)
qed

text \<open>
  C4, as the code has it. After the sanitizer and the pairing repairer, every block of an
  assistant message that is typed as a tool invocation (\<^verbatim>\<open>toolCall\<close>, \<^verbatim>\<open>toolUse\<close>,
  \<^verbatim>\<open>functionCall\<close>) has a non-null arguments payload under \<^verbatim>\<open>input\<close> or
  \<^verbatim>\<open>arguments\<close>.
\<close>

theorem sanitized_repaired_invocations_have_input:
  "invocationsHaveInput (sanitizeThenRepair clock messages)"
  unfolding sanitizeThenRepair_def Let_def
  by (rule repaired_invocationsHaveInput) (rule sanitized_invocationsHaveInput)

theorem sanitized_repaired_invocations_have_input_witness:
  "sanitizeThenRepair sampleClock [sampleAssistant [sampleCallNoInput ''a'', sampleCall ''b'']]
     = [sampleAssistant [sampleCall ''b''], makeMissingToolResult 1700000000000 (ascii ''b'') (Some (ascii ''read''))]
   \<and> invocationsHaveInput
        [sampleAssistant [sampleCall ''b''], makeMissingToolResult 1700000000000 (ascii ''b'') (Some (ascii ''read''))]"
  using sanitized_repaired_invocations_have_input
    [of sampleClock "[sampleAssistant [sampleCallNoInput ''a'', sampleCall ''b'']]"]
  by (simp add: sanitizeThenRepair_def sanitizeToolCallInputs_def repairToolCallInputs_def
      input_repair_init_def sanitizeToolUseResultPairing_def isToolCallBlock_def TOOL_CALL_TYPES_def
      hasToolCallInput_def repair_defs sample_defs sampleCallNoInput_def sampleClock_def Let_def
      scanSpan.simps)

text \<open>
  The claim as stated also asks for a non-empty id. No transform looks at the id of a block
  it keeps: an invocation block without an id, with arguments, passes both unchanged.
\<close>

theorem invocation_without_id_survives:
  "sanitizeThenRepair sampleClock [sampleAssistant [sampleCallNoId]] = [sampleAssistant [sampleCallNoId]]
   \<and> \<not> invocationsHaveId (sanitizeThenRepair sampleClock [sampleAssistant [sampleCallNoId]])"
  by (simp add: sanitizeThenRepair_def sanitizeToolCallInputs_def repairToolCallInputs_def
      input_repair_init_def sanitizeToolUseResultPairing_def isToolCallBlock_def TOOL_CALL_TYPES_def
      hasToolCallInput_def repair_defs sample_defs sampleCallNoId_def Let_def
      invocationsHaveId_def blocksHaveId_def isAssistantMsg_def scanSpan.simps)

section \<open>The textifier, case by case\<close>

lemma textifyLoop_turn:
  "textifiedBlocks msg \<noteq> [] \<Longrightarrow>
   textifyLoop rt tbl st (msg # msgs) = textifyLoop rt tbl (textifyTurn rt tbl msg st) msgs"
  by (cases "getProp msg ''content''"; cases st)
     (auto simp: textifiedBlocks_def isAssistantMsg_def textifyTurn_def Let_def
       split: if_splits prod.splits)

lemma textifyLoop_skip:
  "isConsumedResult st msg \<Longrightarrow>
   textifyLoop rt tbl st (msg # msgs) = textifyLoop rt tbl (st\<lparr>tx_changed := True\<rparr>) msgs"
  by (auto simp: isConsumedResult_def isToolResultMsg_def split: option.splits)

lemma textifyLoop_push:
  "textifiedBlocks msg = [] \<Longrightarrow> \<not> isConsumedResult st msg \<Longrightarrow>
   textifyLoop rt tbl st (msg # msgs) = textifyLoop rt tbl (st\<lparr>tx_out := tx_out st @ [msg]\<rparr>) msgs"
  by (cases "getProp msg ''content''")
     (auto simp: textifiedBlocks_def isAssistantMsg_def isConsumedResult_def isToolResultMsg_def
       Let_def split: option.splits if_splits)

declare textifyLoop.simps(2) [simp del]


lemma textify_cases:
  obtains (Turn) "textifiedBlocks msg \<noteq> []"
  | (Skip) "textifiedBlocks msg = []" "isConsumedResult st msg"
  | (Push) "textifiedBlocks msg = []" "\<not> isConsumedResult st msg"
  by blast

lemma textifyToolCalls_results:
  "textifyToolCalls rt tbl tp rms consumed k tcs = (tp', rms', consumed', k') \<Longrightarrow>
   \<forall>r\<in>set rms. isUserText r \<Longrightarrow> \<forall>r\<in>set rms'. isUserText r"
proof (induction tcs arbitrary: tp rms consumed k)
  case Nil
  then show ?case by simp
next
  case (Cons tc tcs)
  show ?case
  proof (cases "case getProp tc ''id'' of JStr i \<Rightarrow> map_of tbl i | _ \<Rightarrow> None")
    case None
    then show ?thesis using Cons.prems Cons.IH [of _ rms consumed k] by (simp add: Let_def)
  next
    case (Some result)
    show ?thesis
      using Some Cons.prems(1)
      apply (simp add: Let_def)
      apply (erule Cons.IH)
      using Cons.prems(2) apply (simp add: isUserText_def)
      done
  qed
qed

lemma userText_plain: "isUserText r \<Longrightarrow> textifiedBlocks r = []"
  by (simp add: isUserText_def textifiedBlocks_def isAssistantMsg_def)

lemma textBlock_not_textified:
  "\<not> isTextifiedBlock (JObj [(''type'', JStr (ascii ''text'')), (''text'', JStr t)])"
  by (simp add: isTextifiedBlock_def isToolCallBlock_def TOOL_CALL_TYPES_def)

lemma textifyTurn_facts:
  assumes "textifiedBlocks msg \<noteq> []"
  obtains m' rs c k where
    "textifyTurn rt tbl msg st =
       \<lparr>tx_out = tx_out st @ m' # rs, tx_changed = True, tx_consumedToolResultIds = c,
        tx_clockCalls = k\<rparr>"
    and "m' \<noteq> msg" and "textifiedBlocks m' = []" and "\<forall>r\<in>set rs. textifiedBlocks r = []"
proof -
  from assms have asst: "isAssistantMsg msg"
    by (auto simp: textifiedBlocks_def split: if_splits)
  from assms obtain content where c: "getProp msg ''content'' = JArr content"
    and tb: "filter isTextifiedBlock content \<noteq> []"
    by (cases "getProp msg ''content''") (auto simp: textifiedBlocks_def split: if_splits)
  obtain tp rs cs k where tc: "textifyToolCalls rt tbl [] [] (tx_consumedToolResultIds st)
      (tx_clockCalls st) (filter isTextifiedBlock content) = (tp, rs, cs, k)"
    by (metis prod_cases4)
  let ?new = "filter (\<lambda>block. \<not> isTextifiedBlock block) content
     @ [JObj [(''type'', JStr (ascii ''text'')), (''text'', JStr (joinWith (ascii [CHR 0x0A]) tp))]]"
  let ?m' = "spreadWith msg ''content'' (JArr ?new)"
  have content': "getProp ?m' ''content'' = JArr ?new"
    by (rule getProp_spreadWith_same [of msg "''content''"]) (simp add: c)
  have "filter isTextifiedBlock ?new = []"
    by (simp add: textBlock_not_textified)
  then have plain: "textifiedBlocks ?m' = []"
    by (simp add: textifiedBlocks_def content')
  have neq: "?m' \<noteq> msg"
    using plain assms by auto
  have "\<forall>r\<in>set rs. isUserText r"
    using textifyToolCalls_results [OF tc] by simp
  then have rsplain: "\<forall>r\<in>set rs. textifiedBlocks r = []"
    by (simp add: userText_plain)
  have "textifyTurn rt tbl msg st =
       \<lparr>tx_out = tx_out st @ ?m' # rs, tx_changed = True, tx_consumedToolResultIds = cs,
        tx_clockCalls = k\<rparr>"
    by (simp add: textifyTurn_def c tc)
  then show ?thesis using neq plain rsplain that by blast
qed

lemma textifyLoop_prefix:
  "\<exists>xs. tx_out (textifyLoop rt tbl st msgs) = tx_out st @ xs"
proof (induction msgs arbitrary: st)
  case Nil
  then show ?case by simp
next
  case (Cons msg msgs)
  show ?case
  proof (cases rule: textify_cases [where msg = msg and st = st])
    case Turn
    obtain m' rs c k where t: "textifyTurn rt tbl msg st =
       \<lparr>tx_out = tx_out st @ m' # rs, tx_changed = True, tx_consumedToolResultIds = c,
        tx_clockCalls = k\<rparr>"
      using textifyTurn_facts [OF Turn] by metis
    obtain xs where "tx_out (textifyLoop rt tbl (textifyTurn rt tbl msg st) msgs)
        = tx_out (textifyTurn rt tbl msg st) @ xs"
      using Cons.IH by blast
    then show ?thesis using t by (simp add: textifyLoop_turn [OF Turn])
  next
    case Skip
    obtain xs where "tx_out (textifyLoop rt tbl (st\<lparr>tx_changed := True\<rparr>) msgs)
        = tx_out (st\<lparr>tx_changed := True\<rparr>) @ xs"
      using Cons.IH by blast
    then show ?thesis by (simp add: textifyLoop_skip [OF Skip(2)])
  next
    case Push
    obtain xs where "tx_out (textifyLoop rt tbl (st\<lparr>tx_out := tx_out st @ [msg]\<rparr>) msgs)
        = tx_out (st\<lparr>tx_out := tx_out st @ [msg]\<rparr>) @ xs"
      using Cons.IH by blast
    then show ?thesis by (simp add: textifyLoop_push [OF Push])
  qed
qed

lemma textifyLoop_changed_mono:
  "tx_changed st \<Longrightarrow> tx_changed (textifyLoop rt tbl st msgs)"
proof (induction msgs arbitrary: st)
  case Nil
  then show ?case by simp
next
  case (Cons msg msgs)
  show ?case
  proof (cases rule: textify_cases [where msg = msg and st = st])
    case Turn
    obtain m' rs c k where t: "textifyTurn rt tbl msg st =
       \<lparr>tx_out = tx_out st @ m' # rs, tx_changed = True, tx_consumedToolResultIds = c,
        tx_clockCalls = k\<rparr>"
      using textifyTurn_facts [OF Turn] by metis
    have "tx_changed (textifyLoop rt tbl (textifyTurn rt tbl msg st) msgs)"
      by (rule Cons.IH) (simp add: t)
    then show ?thesis by (simp add: textifyLoop_turn [OF Turn])
  next
    case Skip
    have "tx_changed (textifyLoop rt tbl (st\<lparr>tx_changed := True\<rparr>) msgs)"
      by (rule Cons.IH) simp
    then show ?thesis by (simp add: textifyLoop_skip [OF Skip(2)])
  next
    case Push
    have "tx_changed (textifyLoop rt tbl (st\<lparr>tx_out := tx_out st @ [msg]\<rparr>) msgs)"
      by (rule Cons.IH) (simp add: Cons.prems)
    then show ?thesis by (simp add: textifyLoop_push [OF Push])
  qed
qed

lemma not_consumed_empty: "tx_consumedToolResultIds st = {} \<Longrightarrow> \<not> isConsumedResult st msg"
  by (simp add: isConsumedResult_def split: option.splits)


lemma textifyLoop_out_plain:
  "\<forall>m\<in>set (tx_out st). textifiedBlocks m = [] \<Longrightarrow>
   \<forall>m\<in>set (tx_out (textifyLoop rt tbl st msgs)). textifiedBlocks m = []"
proof (induction msgs arbitrary: st)
  case Nil
  then show ?case by simp
next
  case (Cons msg msgs)
  show ?case
  proof (cases rule: textify_cases [where msg = msg and st = st])
    case Turn
    obtain m' rs c k where t: "textifyTurn rt tbl msg st =
       \<lparr>tx_out = tx_out st @ m' # rs, tx_changed = True, tx_consumedToolResultIds = c,
        tx_clockCalls = k\<rparr>" and "textifiedBlocks m' = []" "\<forall>r\<in>set rs. textifiedBlocks r = []"
      using textifyTurn_facts [OF Turn] by metis
    then have "\<forall>m\<in>set (tx_out (textifyTurn rt tbl msg st)). textifiedBlocks m = []"
      using Cons.prems by auto
    then have "\<forall>m\<in>set (tx_out (textifyLoop rt tbl (textifyTurn rt tbl msg st) msgs)). textifiedBlocks m = []"
      by (rule Cons.IH)
    then show ?thesis by (simp only: textifyLoop_turn [OF Turn])
  next
    case Skip
    have "\<forall>m\<in>set (tx_out (textifyLoop rt tbl (st\<lparr>tx_changed := True\<rparr>) msgs)). textifiedBlocks m = []"
      by (rule Cons.IH) (use Cons.prems in simp)
    then show ?thesis by (simp only: textifyLoop_skip [OF Skip(2)])
  next
    case Push
    have "\<forall>m\<in>set (tx_out (textifyLoop rt tbl (st\<lparr>tx_out := tx_out st @ [msg]\<rparr>) msgs)). textifiedBlocks m = []"
      by (rule Cons.IH) (use Cons.prems Push(1) in simp)
    then show ?thesis by (simp only: textifyLoop_push [OF Push])
  qed
qed

lemma textifyLoop_plain_noop:
  "\<forall>m\<in>set msgs. textifiedBlocks m = [] \<Longrightarrow> tx_consumedToolResultIds st = {} \<Longrightarrow>
   textifyLoop rt tbl st msgs = st\<lparr>tx_out := tx_out st @ msgs\<rparr>"
proof (induction msgs arbitrary: st)
  case Nil
  then show ?case by simp
next
  case (Cons msg msgs)
  have push: "textifyLoop rt tbl st (msg # msgs) = textifyLoop rt tbl (st\<lparr>tx_out := tx_out st @ [msg]\<rparr>) msgs"
    by (rule textifyLoop_push) (use Cons.prems not_consumed_empty in simp_all)
  have "textifyLoop rt tbl (st\<lparr>tx_out := tx_out st @ [msg]\<rparr>) msgs
        = (st\<lparr>tx_out := tx_out st @ [msg]\<rparr>)\<lparr>tx_out := tx_out (st\<lparr>tx_out := tx_out st @ [msg]\<rparr>) @ msgs\<rparr>"
    by (rule Cons.IH) (use Cons.prems in simp_all)
  then show ?case using push by simp
qed

lemma textify_unchanged_plain:
  "\<not> tx_changed (textifyLoop rt tbl st msgs) \<Longrightarrow> \<forall>m\<in>set msgs. textifiedBlocks m = []"
proof (induction msgs arbitrary: st)
  case Nil
  then show ?case by simp
next
  case (Cons msg msgs)
  show ?case
  proof (cases rule: textify_cases [where msg = msg and st = st])
    case Turn
    obtain m' rs c k where t: "textifyTurn rt tbl msg st =
       \<lparr>tx_out = tx_out st @ m' # rs, tx_changed = True, tx_consumedToolResultIds = c,
        tx_clockCalls = k\<rparr>"
      using textifyTurn_facts [OF Turn] by metis
    have "tx_changed (textifyLoop rt tbl (textifyTurn rt tbl msg st) msgs)"
      by (rule textifyLoop_changed_mono) (simp add: t)
    then show ?thesis using Cons.prems by (simp add: textifyLoop_turn [OF Turn])
  next
    case Skip
    have "\<forall>m\<in>set msgs. textifiedBlocks m = []"
      by (rule Cons.IH [of "st\<lparr>tx_changed := True\<rparr>"])
         (use Cons.prems in \<open>simp add: textifyLoop_skip [OF Skip(2)]\<close>)
    then show ?thesis using Skip(1) by simp
  next
    case Push
    have "\<forall>m\<in>set msgs. textifiedBlocks m = []"
      by (rule Cons.IH [of "st\<lparr>tx_out := tx_out st @ [msg]\<rparr>"])
         (use Cons.prems in \<open>simp add: textifyLoop_push [OF Push]\<close>)
    then show ?thesis using Push(1) by simp
  qed
qed

lemma textified_plain:
  "\<forall>m\<in>set (deref msgs (textifyToolCallRounds rt msgs)). textifiedBlocks m = []"
proof (cases "tx_changed (textifyLoop rt (collectToolResults [] msgs) textify_init msgs)")
  case True
  have "\<forall>m\<in>set (tx_out (textifyLoop rt (collectToolResults [] msgs) textify_init msgs)).
          textifiedBlocks m = []"
    by (rule textifyLoop_out_plain) (simp add: textify_init_def)
  then show ?thesis using True by (simp add: textifyToolCallRounds_def Let_def)
next
  case False
  then show ?thesis
    using textify_unchanged_plain [OF False] by (simp add: textifyToolCallRounds_def Let_def)
qed

lemma textify_plain_same:
  "\<forall>m\<in>set msgs. textifiedBlocks m = [] \<Longrightarrow> textifyToolCallRounds rt msgs = SameAsInput"
  using textifyLoop_plain_noop [of msgs textify_init rt "collectToolResults [] msgs"]
  by (simp add: textifyToolCallRounds_def Let_def textify_init_def)

lemma textify_idempotent:
  "deref (deref msgs (textifyToolCallRounds rt msgs))
     (textifyToolCallRounds rt' (deref msgs (textifyToolCallRounds rt msgs)))
   = deref msgs (textifyToolCallRounds rt msgs)"
  by (simp add: textify_plain_same [OF textified_plain])


section \<open>The sanitizer changes a transcript or returns it\<close>





lemma sanitize_clean_same:
  "\<forall>m\<in>set msgs. inputlessToolCalls m = [] \<Longrightarrow> sanitizeToolCallInputs msgs = SameAsInput"
  by (simp add: sanitizeToolCallInputs_def repairToolCallInputs_def Let_def sanitize_loop_changed
      input_repair_init_def)


lemma sanitize_idempotent:
  "deref (deref msgs (sanitizeToolCallInputs msgs))
     (sanitizeToolCallInputs (deref msgs (sanitizeToolCallInputs msgs)))
   = deref msgs (sanitizeToolCallInputs msgs)"
proof -
  have "\<forall>m\<in>set (deref msgs (sanitizeToolCallInputs msgs)). inputlessToolCalls m = []"
    unfolding sanitize_deref using sanitizedMessage_clean by auto
  then show ?thesis by (simp add: sanitize_clean_same)
qed

section \<open>Running the repair loop on its own output\<close>

lemma extractToolCallsFromBlocks_ids:
  "\<forall>call\<in>set (extractToolCallsFromBlocks blocks). tc_id call \<noteq> []"
  by (induction blocks) (auto split: jsval.splits)

lemma extractToolCalls_ids: "\<forall>call\<in>set (extractToolCallsFromAssistant msg). tc_id call \<noteq> []"
  by (auto simp: extractToolCallsFromAssistant_def extractToolCallsFromBlocks_ids split: jsval.splits)

lemma missing_id: "i \<noteq> [] \<Longrightarrow> extractToolResultId (makeMissingToolResult n i nm) = Some i"
  by (simp add: extractToolResultId_def makeMissingToolResult_def)

lemma missing_isToolResult: "isToolResultMsg (makeMissingToolResult n i nm)"
  by (simp add: isToolResultMsg_def makeMissingToolResult_def)

lemma spanResultId_id: "spanResultId ids r = Some i \<Longrightarrow> extractToolResultId r = Some i \<and> i \<in> ids"
  by (auto simp: spanResultId_def split: if_splits option.splits)

lemma spanResultId_intro:
  "isToolResultMsg r \<Longrightarrow> extractToolResultId r = Some i \<Longrightarrow> i \<in> ids \<Longrightarrow> spanResultId ids r = Some i"
  by (simp add: spanResultId_def isToolResultMsg_def)

lemma wellKeyed_lookup:
  "wellKeyed ids sp \<Longrightarrow> map_of sp i = Some r \<Longrightarrow>
   isToolResultMsg r \<and> extractToolResultId r = Some i \<and> i \<in> ids"
  by (auto simp: wellKeyed_def dest!: map_of_SomeD spanResultId_id)

lemma pushToolResult_seen:
  "extractToolResultId r = Some i \<Longrightarrow> i \<in> rs_seenToolResultIds st \<Longrightarrow>
   pushToolResult r st = countDuplicate st"
  by (simp add: pushToolResult_def countDuplicate_def)

lemma pushToolResult_fresh:
  "extractToolResultId r = Some i \<Longrightarrow> i \<notin> rs_seenToolResultIds st \<Longrightarrow>
   pushToolResult r st = st\<lparr>rs_seenToolResultIds := insert i (rs_seenToolResultIds st),
                              rs_out := rs_out st @ [r]\<rparr>"
  by (simp add: pushToolResult_def)

lemma emit_emitted:
  assumes wk: "wellKeyed ids sp"
  shows "\<forall>call\<in>set calls. tc_id call \<noteq> [] \<Longrightarrow>
    rs_out (emitToolResults clock sp st calls)
      = rs_out st @ emitted clock sp (rs_seenToolResultIds st) (length (rs_added st)) calls
    \<and> rs_seenToolResultIds (emitToolResults clock sp st calls)
      = rs_seenToolResultIds st \<union> set (map tc_id calls)
    \<and> rs_droppedOrphanCount (emitToolResults clock sp st calls) = rs_droppedOrphanCount st"
proof (induction calls arbitrary: st)
  case Nil
  then show ?case by simp
next
  case (Cons call calls)
  then have ne: "tc_id call \<noteq> []" and rest: "\<forall>call\<in>set calls. tc_id call \<noteq> []" by simp_all
  note IH = Cons.IH [OF rest]
  show ?case
  proof (cases "map_of sp (tc_id call)")
    case None
    let ?missing = "makeMissingToolResult (clock (length (rs_added st))) (tc_id call) (tc_name call)"
    let ?st1 = "st\<lparr>rs_added := rs_added st @ [?missing], rs_changed := True\<rparr>"
    have id: "extractToolResultId ?missing = Some (tc_id call)" by (rule missing_id [OF ne])
    show ?thesis
    proof (cases "tc_id call \<in> rs_seenToolResultIds st")
      case True
      then have "pushToolResult ?missing ?st1 = countDuplicate ?st1"
        using pushToolResult_seen [OF id, of ?st1] by simp
      then show ?thesis using None True IH [of "countDuplicate ?st1"]
        by (auto simp: Let_def)
    next
      case False
      then have "pushToolResult ?missing ?st1
          = ?st1\<lparr>rs_seenToolResultIds := insert (tc_id call) (rs_seenToolResultIds ?st1),
                  rs_out := rs_out ?st1 @ [?missing]\<rparr>"
        using pushToolResult_fresh [OF id, of ?st1] by simp
      then show ?thesis using None False
          IH [of "?st1\<lparr>rs_seenToolResultIds := insert (tc_id call) (rs_seenToolResultIds ?st1),
                  rs_out := rs_out ?st1 @ [?missing]\<rparr>"]
        by (auto simp: Let_def)
    qed
  next
    case (Some existing)
    then have id: "extractToolResultId existing = Some (tc_id call)"
      using wellKeyed_lookup [OF wk] by blast
    show ?thesis
    proof (cases "tc_id call \<in> rs_seenToolResultIds st")
      case True
      then show ?thesis using Some IH [of "countDuplicate st"] pushToolResult_seen [OF id True]
        by auto
    next
      case False
      then show ?thesis using Some pushToolResult_fresh [OF id False]
          IH [of "st\<lparr>rs_seenToolResultIds := insert (tc_id call) (rs_seenToolResultIds st),
                  rs_out := rs_out st @ [existing]\<rparr>"]
        by auto
    qed
  qed
qed

lemma emitted_members:
  assumes wk: "wellKeyed ids sp"
  shows "\<forall>call\<in>set calls. tc_id call \<noteq> [] \<Longrightarrow> r \<in> set (emitted clock sp seen k calls) \<Longrightarrow>
    isToolResultMsg r \<and> (\<exists>i. extractToolResultId r = Some i \<and> i \<in> set (map tc_id calls) \<and> i \<notin> seen)"
proof (induction calls arbitrary: seen k)
  case Nil
  then show ?case by simp
next
  case (Cons call calls)
  then have ne: "tc_id call \<noteq> []" and rest: "\<forall>call\<in>set calls. tc_id call \<noteq> []" by simp_all
  note IH = Cons.IH [OF rest]
  show ?case
  proof (cases "map_of sp (tc_id call)")
    case None
    then show ?thesis
      using Cons.prems(2) IH missing_id [OF ne] missing_isToolResult
      by (fastforce split: if_splits)
  next
    case (Some existing)
    then have "isToolResultMsg existing \<and> extractToolResultId existing = Some (tc_id call)"
      using wellKeyed_lookup [OF wk] by blast
    then show ?thesis
      using Some Cons.prems(2) IH by (fastforce split: if_splits)
  qed
qed


lemma findResult_Cons:
  "findResult i (r # rs) = (if extractToolResultId r = Some i then Some r else findResult i rs)"
  by (simp add: findResult_def)

lemma emitted_replay:
  assumes wk: "wellKeyed ids sp"
  shows "\<forall>call\<in>set calls. tc_id call \<noteq> [] \<Longrightarrow>
    \<forall>i. i \<notin> seen \<longrightarrow> map_of sp2 i = findResult i (emitted clock sp seen k calls) \<Longrightarrow>
    emitted clock2 sp2 seen k2 calls = emitted clock sp seen k calls"
proof (induction calls arbitrary: seen k k2)
  case Nil
  then show ?case by simp
next
  case (Cons call calls)
  then have ne: "tc_id call \<noteq> []" and rest: "\<forall>call\<in>set calls. tc_id call \<noteq> []" by simp_all
  note IH = Cons.IH [OF rest]
  let ?a = "tc_id call"
  show ?case
  proof (cases "?a \<in> seen")
    case True
    obtain k' where e1: "emitted clock sp seen k (call # calls) = emitted clock sp seen k' calls"
      using True by (cases "map_of sp ?a") auto
    obtain k2' where e2: "emitted clock2 sp2 seen k2 (call # calls) = emitted clock2 sp2 seen k2' calls"
      using True by (cases "map_of sp2 ?a") auto
    have "emitted clock2 sp2 seen k2' calls = emitted clock sp seen k' calls"
      by (rule IH) (use Cons.prems(2) e1 in simp)
    then show ?thesis using e1 e2 by simp
  next
    case False
    obtain r1 k' where e1: "emitted clock sp seen k (call # calls)
        = r1 # emitted clock sp (insert ?a seen) k' calls"
      and id1: "extractToolResultId r1 = Some ?a"
    proof (cases "map_of sp ?a")
      case None
      then show ?thesis using that False missing_id [OF ne] by simp
    next
      case (Some existing)
      then show ?thesis using that False wellKeyed_lookup [OF wk Some] by simp
    qed
    have "map_of sp2 ?a = Some r1"
      using Cons.prems(2) False e1 id1 by (simp add: findResult_Cons)
    then have e2: "emitted clock2 sp2 seen k2 (call # calls)
        = r1 # emitted clock2 sp2 (insert ?a seen) k2 calls"
      using False by simp
    have "emitted clock2 sp2 (insert ?a seen) k2 calls = emitted clock sp (insert ?a seen) k' calls"
    proof (rule IH, intro allI impI)
      fix i assume "i \<notin> insert ?a seen"
      then have "i \<notin> seen" "i \<noteq> ?a" by auto
      then show "map_of sp2 i = findResult i (emitted clock sp (insert ?a seen) k' calls)"
        using Cons.prems(2) e1 id1 by (simp add: findResult_Cons)
    qed
    then show ?thesis using e1 e2 by simp
  qed
qed

lemma collectToolResults_lookup:
  "\<forall>r\<in>set rs. isToolResultMsg r \<Longrightarrow>
   map_of (collectToolResults sp rs) i
     = (case map_of sp i of Some r \<Rightarrow> Some r | None \<Rightarrow> findResult i rs)"
proof (induction rs arbitrary: sp)
  case Nil
  then show ?case by (simp add: findResult_def split: option.splits)
next
  case (Cons r rs)
  then have tr: "isObject r \<and> getProp r ''role'' = JStr (ascii ''toolResult'')"
    and rest: "\<forall>r\<in>set rs. isToolResultMsg r"
    by (simp_all add: isToolResultMsg_def)
  show ?case
  proof (cases "extractToolResultId r")
    case None
    then show ?thesis using tr Cons.IH [OF rest, of sp]
      by (auto simp: findResult_Cons split: option.splits)
  next
    case (Some j)
    show ?thesis
    proof (cases "map_of sp j")
      case None
      then show ?thesis
        using tr Some Cons.IH [OF rest, of "sp @ [(j, r)]"]
        by (auto simp: findResult_Cons map_add_def split: option.splits)
    next
      case (Some y)
      then show ?thesis
        using tr \<open>extractToolResultId r = Some j\<close> Cons.IH [OF rest, of sp]
        by (auto simp: findResult_Cons split: option.splits)
    qed
  qed
qed

lemma collectToolResults_wellKeyed:
  "wellKeyed ids sp \<Longrightarrow> \<forall>r\<in>set rs. isToolResultMsg r \<and> (\<exists>i. spanResultId ids r = Some i) \<Longrightarrow>
   wellKeyed ids (collectToolResults sp rs)"
proof (induction rs arbitrary: sp)
  case Nil
  then show ?case by simp
next
  case (Cons r rs)
  then obtain i where i: "spanResultId ids r = Some i" and tr: "isToolResultMsg r" by auto
  then have id: "extractToolResultId r = Some i" using spanResultId_id by blast
  have "wellKeyed ids (sp @ [(i, r)])"
    using Cons.prems(1) i tr by (simp add: wellKeyed_def)
  then show ?case
    using Cons.IH [of "sp @ [(i, r)]"] Cons.IH [of sp] Cons.prems id tr
    by (simp add: isToolResultMsg_def)
qed

lemma scanSpan_results:
  "\<forall>r\<in>set rs. isToolResultMsg r \<and> (\<exists>i. spanResultId ids r = Some i \<and> i \<notin> rs_seenToolResultIds st) \<Longrightarrow>
   scanSpan ids st sp rem (rs @ tail) = scanSpan ids st (collectToolResults sp rs) rem tail"
proof (induction rs arbitrary: sp)
  case Nil
  then show ?case by simp
next
  case (Cons r rs)
  then obtain i where i: "spanResultId ids r = Some i" "i \<notin> rs_seenToolResultIds st"
    and tr: "isToolResultMsg r" by auto
  then have id: "extractToolResultId r = Some i" using spanResultId_id by blast
  have na: "\<not> isAssistantMsg r" using tr by (rule toolResult_not_assistant)
  have step: "scanStep ids r (st, sp, rem)
      = (st, (if map_of sp i = None then sp @ [(i, r)] else sp), rem)"
    using i tr by (simp add: scanStep_def)
  have "scanSpan ids st sp rem ((r # rs) @ tail)
      = scanSpan ids st (if map_of sp i = None then sp @ [(i, r)] else sp) rem (rs @ tail)"
    using scanSpan_step [OF na, of ids st sp rem "rs @ tail"] step by simp
  also have "\<dots> = scanSpan ids st
      (collectToolResults (if map_of sp i = None then sp @ [(i, r)] else sp) rs) rem tail"
    by (rule Cons.IH) (use Cons.prems in simp)
  also have "collectToolResults (if map_of sp i = None then sp @ [(i, r)] else sp) rs
      = collectToolResults sp (r # rs)"
    using id tr by (simp add: isToolResultMsg_def)
  finally show ?case .
qed

lemma scanSpan_remainder:
  "\<forall>m\<in>set ms. \<not> isToolResultMsg m \<and> \<not> isAssistantMsg m \<Longrightarrow>
   scanSpan ids st sp rem (ms @ tail) = scanSpan ids st sp (rem @ ms) tail"
proof (induction ms arbitrary: rem)
  case Nil
  then show ?case by simp
next
  case (Cons m ms)
  then have m: "\<not> isToolResultMsg m" "\<not> isAssistantMsg m" by simp_all
  have "scanStep ids m (st, sp, rem) = (st, sp, rem @ [m])"
    using m by (simp add: scanStep_def)
  then have "scanSpan ids st sp rem ((m # ms) @ tail) = scanSpan ids st sp (rem @ [m]) (ms @ tail)"
    using scanSpan_step [OF m(2), of ids st sp rem "ms @ tail"] by simp
  then show ?case using Cons.IH [of "rem @ [m]"] Cons.prems by simp
qed

lemma scanSpan_stopped:
  "stopsScan tail \<Longrightarrow> scanSpan ids st sp rem tail = (st, sp, rem, tail)"
  by (cases tail) (simp_all add: stopsScan_def scanSpan_stop)

lemma scanStep_shape:
  assumes "scanStep ids m (st, sp, rem) = (st', sp', rem')" and "\<not> isAssistantMsg m"
    and "wellKeyed ids sp" and "\<forall>x\<in>set rem. \<not> isToolResultMsg x \<and> \<not> isAssistantMsg x"
  shows "wellKeyed ids sp' \<and> (\<forall>x\<in>set rem'. \<not> isToolResultMsg x \<and> \<not> isAssistantMsg x)"
  using assms by (auto simp: scanStep_def wellKeyed_def split: if_splits option.splits)

lemma scanSpan_shape:
  "scanSpan ids st sp rem msgs = (st1, sp1, rem1, r) \<Longrightarrow> wellKeyed ids sp \<Longrightarrow>
   \<forall>x\<in>set rem. \<not> isToolResultMsg x \<and> \<not> isAssistantMsg x \<Longrightarrow>
   wellKeyed ids sp1 \<and> (\<forall>x\<in>set rem1. \<not> isToolResultMsg x \<and> \<not> isAssistantMsg x) \<and> stopsScan r"
proof (induction st sp rem msgs rule: scanSpan_induct [where ids = ids])
  case (Nil st sp rem)
  then show ?case by (simp add: stopsScan_def)
next
  case (Stop st sp rem m rest)
  then show ?case by (auto simp: scanSpan_stop stopsScan_def)
next
  case (Step st sp rem m rest st' sp' rem')
  have "wellKeyed ids sp' \<and> (\<forall>x\<in>set rem'. \<not> isToolResultMsg x \<and> \<not> isAssistantMsg x)"
    by (rule scanStep_shape [OF Step.hyps(2,1) Step.prems(2,3)])
  then show ?case using Step by (simp add: scanSpan_step)
qed


lemma afterTurn_result:
  assumes "wellKeyed ids sp"
  shows "rs_out (afterTurn clock msg st1 sp rem)
       = rs_out st1 @ msg # emitted clock sp (rs_seenToolResultIds st1) (length (rs_added st1))
                               (extractToolCallsFromAssistant msg) @ rem"
    and "rs_seenToolResultIds (afterTurn clock msg st1 sp rem)
       = rs_seenToolResultIds st1 \<union> set (map tc_id (extractToolCallsFromAssistant msg))"
    and "rs_droppedOrphanCount (afterTurn clock msg st1 sp rem) = rs_droppedOrphanCount st1"
proof -
  define st3 where "st3 = (if sp \<noteq> [] \<and> rem \<noteq> []
           then (pushMsgs [msg] st1)\<lparr>rs_moved := True, rs_changed := True\<rparr>
           else pushMsgs [msg] st1)"
  have st3: "rs_out st3 = rs_out st1 @ [msg]" "rs_seenToolResultIds st3 = rs_seenToolResultIds st1"
    "rs_added st3 = rs_added st1" "rs_droppedOrphanCount st3 = rs_droppedOrphanCount st1"
    by (simp_all add: st3_def)
  have at: "afterTurn clock msg st1 sp rem
      = pushMsgs rem (emitToolResults clock sp st3 (extractToolCallsFromAssistant msg))"
    by (simp add: afterTurn_def st3_def)
  have e: "rs_out (emitToolResults clock sp st3 (extractToolCallsFromAssistant msg))
      = rs_out st3 @ emitted clock sp (rs_seenToolResultIds st3) (length (rs_added st3))
          (extractToolCallsFromAssistant msg)
    \<and> rs_seenToolResultIds (emitToolResults clock sp st3 (extractToolCallsFromAssistant msg))
      = rs_seenToolResultIds st3 \<union> set (map tc_id (extractToolCallsFromAssistant msg))
    \<and> rs_droppedOrphanCount (emitToolResults clock sp st3 (extractToolCallsFromAssistant msg))
      = rs_droppedOrphanCount st3"
    by (rule emit_emitted [OF assms extractToolCalls_ids])
  show "rs_out (afterTurn clock msg st1 sp rem)
       = rs_out st1 @ msg # emitted clock sp (rs_seenToolResultIds st1) (length (rs_added st1))
                               (extractToolCallsFromAssistant msg) @ rem"
    using e by (simp add: at st3)
  show "rs_seenToolResultIds (afterTurn clock msg st1 sp rem)
       = rs_seenToolResultIds st1 \<union> set (map tc_id (extractToolCallsFromAssistant msg))"
    using e by (simp add: at st3)
  show "rs_droppedOrphanCount (afterTurn clock msg st1 sp rem) = rs_droppedOrphanCount st1"
    using e by (simp add: at st3)
qed

lemma wellKeyed_Nil [simp]: "wellKeyed ids []"
  by (simp add: wellKeyed_def)

lemma turn_scan_facts:
  assumes "scanSpan ids st [] [] rest = (st1, sp, rem, rest')"
  shows "wellKeyed ids sp" and "\<forall>x\<in>set rem. \<not> isToolResultMsg x \<and> \<not> isAssistantMsg x"
    and "stopsScan rest'" and "rs_out st1 = rs_out st"
    and "rs_seenToolResultIds st1 = rs_seenToolResultIds st" and "rs_added st1 = rs_added st"
  using scanSpan_shape [OF assms] scanSpan_frame [OF assms] by simp_all

lemma repairLoop_prefix: "\<exists>xs. rs_out (repairLoop clock st msgs) = rs_out st @ xs"
proof (induction clock st msgs rule: repairLoop_induct)
  case (Nil clock st)
  then show ?case by simp
next
  case (Pass clock st msg rest)
  then show ?case by (auto simp: repairLoop_pass)
next
  case (Orphan clock st msg rest)
  then show ?case by (auto simp: repairLoop_orphan)
next
  case (Turn clock st msg rest st1 sp rem rest')
  note f = turn_scan_facts [OF Turn.hyps(2)]
  from Turn.IH obtain xs where
    "rs_out (repairLoop clock (afterTurn clock msg st1 sp rem) rest')
       = rs_out (afterTurn clock msg st1 sp rem) @ xs" by blast
  then show ?case
    using afterTurn_result(1) [OF f(1), of clock msg st1 rem] f(4)
    by (simp add: repairLoop_turn [OF Turn.hyps(1,2)])
qed

lemma out_produced: "rs_out (repairLoop clock st msgs) = rs_out st @ produced clock st msgs"
  using repairLoop_prefix [of clock st msgs] by (auto simp: produced_def)

lemma produced_Nil [simp]: "produced clock st [] = []"
  by (simp add: produced_def)

lemma produced_pass:
  assumes "passesThrough msg"
  shows "produced clock st (msg # rest) = msg # produced clock (pushMsgs [msg] st) rest"
proof -
  have "rs_out st @ produced clock st (msg # rest)
      = rs_out st @ msg # produced clock (pushMsgs [msg] st) rest"
    using out_produced [of clock "pushMsgs [msg] st" rest] out_produced [of clock st "msg # rest"]
    by (simp add: repairLoop_pass [OF assms])
  then show ?thesis by simp
qed

lemma produced_orphan:
  "isToolResultMsg msg \<Longrightarrow> produced clock st (msg # rest) = produced clock (countOrphan st) rest"
  by (simp add: produced_def repairLoop_orphan)

lemma produced_turn:
  assumes "startsTurn msg"
    and "scanSpan (set (map tc_id (extractToolCallsFromAssistant msg))) st [] [] rest = (st1, sp, rem, rest')"
  shows "produced clock st (msg # rest)
       = msg # emitted clock sp (rs_seenToolResultIds st) (length (rs_added st))
                 (extractToolCallsFromAssistant msg)
           @ rem @ produced clock (afterTurn clock msg st1 sp rem) rest'"
proof -
  note f = turn_scan_facts [OF assms(2)]
  have "rs_out st @ produced clock st (msg # rest)
      = rs_out st @ (msg # emitted clock sp (rs_seenToolResultIds st) (length (rs_added st))
                 (extractToolCallsFromAssistant msg)
           @ rem @ produced clock (afterTurn clock msg st1 sp rem) rest')"
    using out_produced [of clock "afterTurn clock msg st1 sp rem" rest']
      out_produced [of clock st "msg # rest"]
      afterTurn_result(1) [OF f(1), of clock msg st1 rem] f(4,5,6)
    by (simp add: repairLoop_turn [OF assms])
  then show ?thesis by (simp only: same_append_eq)
qed

lemma produced_stops: "stopsScan msgs \<Longrightarrow> stopsScan (produced clock st msgs)"
proof (cases msgs)
  case Nil
  then show ?thesis by (simp add: stopsScan_def)
next
  case (Cons a r)
  assume "stopsScan msgs"
  then have a: "isAssistantMsg a" using Cons by (simp add: stopsScan_def)
  show ?thesis
  proof (cases a rule: msg_cases)
    case Pass
    then show ?thesis using a Cons by (simp add: produced_pass stopsScan_def)
  next
    case Orphan
    then show ?thesis using a toolResult_not_assistant by blast
  next
    case Turn
    obtain st1 sp rem rest' where
      "scanSpan (set (map tc_id (extractToolCallsFromAssistant a))) st [] [] r = (st1, sp, rem, rest')"
      by (metis prod_cases4)
    then show ?thesis using a Cons produced_turn [OF Turn] by (simp add: stopsScan_def)
  qed
qed


lemma replay_turn:
  fixes clock clock2 :: "nat \<Rightarrow> int"
  assumes turn: "startsTurn msg"
    and scan: "scanSpan (set (map tc_id (extractToolCallsFromAssistant msg))) st [] [] rest
               = (st1, sp, rem, rest')"
    and seen: "rs_seenToolResultIds st2 = rs_seenToolResultIds st"
    and tail: "stopsScan tail"
  defines "E \<equiv> emitted clock sp (rs_seenToolResultIds st) (length (rs_added st))
                 (extractToolCallsFromAssistant msg)"
  shows "\<exists>st2'. repairLoop clock2 st2 (msg # E @ rem @ tail) = repairLoop clock2 st2' tail
          \<and> rs_out st2' = rs_out st2 @ msg # E @ rem
          \<and> rs_seenToolResultIds st2' = rs_seenToolResultIds (afterTurn clock msg st1 sp rem)
          \<and> rs_droppedOrphanCount st2' = rs_droppedOrphanCount st2"
proof -
  let ?calls = "extractToolCallsFromAssistant msg"
  let ?ids = "set (map tc_id ?calls)"
  note f = turn_scan_facts [OF scan]
  have members: "isToolResultMsg r \<and> (\<exists>i. spanResultId ?ids r = Some i \<and> i \<notin> rs_seenToolResultIds st2)"
    if "r \<in> set E" for r
  proof -
    from that have "isToolResultMsg r \<and>
        (\<exists>i. extractToolResultId r = Some i \<and> i \<in> set (map tc_id ?calls) \<and> i \<notin> rs_seenToolResultIds st)"
      unfolding E_def by (rule emitted_members [OF f(1) extractToolCalls_ids])
    then show ?thesis using seen spanResultId_intro by metis
  qed
  let ?sp2 = "collectToolResults [] E"
  have scan2: "scanSpan ?ids st2 [] [] (E @ rem @ tail) = (st2, ?sp2, rem, tail)"
  proof -
    have "scanSpan ?ids st2 [] [] (E @ rem @ tail) = scanSpan ?ids st2 ?sp2 [] (rem @ tail)"
      by (rule scanSpan_results) (use members in blast)
    also have "\<dots> = scanSpan ?ids st2 ?sp2 ([] @ rem) tail"
      by (rule scanSpan_remainder) (use f(2) in blast)
    also have "\<dots> = (st2, ?sp2, rem, tail)"
      using scanSpan_stopped [OF tail] by simp
    finally show ?thesis .
  qed
  have wk2: "wellKeyed ?ids ?sp2"
    by (rule collectToolResults_wellKeyed) (use members in auto)
  have lookup: "\<forall>i. i \<notin> rs_seenToolResultIds st \<longrightarrow> map_of ?sp2 i = findResult i E"
    using collectToolResults_lookup [of E "[]"] members by simp
  have replay: "emitted clock2 ?sp2 (rs_seenToolResultIds st) (length (rs_added st2)) ?calls = E"
    unfolding E_def
    by (rule emitted_replay [OF f(1) extractToolCalls_ids]) (use lookup in \<open>simp add: E_def\<close>)
  let ?st2' = "afterTurn clock2 msg st2 ?sp2 rem"
  have "repairLoop clock2 st2 (msg # E @ rem @ tail) = repairLoop clock2 ?st2' tail"
    by (rule repairLoop_turn [OF turn scan2])
  moreover have "rs_out ?st2' = rs_out st2 @ msg # E @ rem"
    using afterTurn_result(1) [OF wk2, of clock2 msg st2 rem] replay seen by simp
  moreover have "rs_seenToolResultIds ?st2' = rs_seenToolResultIds (afterTurn clock msg st1 sp rem)"
    using afterTurn_result(2) [OF wk2, of clock2 msg st2 rem]
      afterTurn_result(2) [OF f(1), of clock msg st1 rem] seen f(5) by simp
  moreover have "rs_droppedOrphanCount ?st2' = rs_droppedOrphanCount st2"
    by (rule afterTurn_result(3) [OF wk2])
  ultimately show ?thesis by blast
qed

lemma replay_produced:
  "rs_seenToolResultIds st2 = rs_seenToolResultIds st \<Longrightarrow>
   rs_out (repairLoop clock2 st2 (produced clock st msgs)) = rs_out st2 @ produced clock st msgs
   \<and> rs_droppedOrphanCount (repairLoop clock2 st2 (produced clock st msgs))
       = rs_droppedOrphanCount st2"
proof (induction clock st msgs arbitrary: st2 rule: repairLoop_induct)
  case (Nil clock st)
  then show ?case by simp
next
  case (Pass clock st msg rest)
  have "rs_seenToolResultIds (pushMsgs [msg] st2) = rs_seenToolResultIds (pushMsgs [msg] st)"
    using Pass.prems by simp
  from Pass.IH [OF this] show ?case
    by (simp add: produced_pass [OF Pass.hyps] repairLoop_pass [OF Pass.hyps])
next
  case (Orphan clock st msg rest)
  have "rs_seenToolResultIds st2 = rs_seenToolResultIds (countOrphan st)"
    using Orphan.prems by simp
  from Orphan.IH [OF this] show ?case
    by (simp add: produced_orphan [OF Orphan.hyps])
next
  case (Turn clock st msg rest st1 sp rem rest')
  note f = turn_scan_facts [OF Turn.hyps(2)]
  let ?P' = "produced clock (afterTurn clock msg st1 sp rem) rest'"
  have tail: "stopsScan ?P'" by (rule produced_stops [OF f(3)])
  obtain st2' where r: "repairLoop clock2 st2
        (msg # emitted clock sp (rs_seenToolResultIds st) (length (rs_added st))
                 (extractToolCallsFromAssistant msg) @ rem @ ?P')
      = repairLoop clock2 st2' ?P'"
    and out: "rs_out st2' = rs_out st2 @ msg # emitted clock sp (rs_seenToolResultIds st)
                 (length (rs_added st)) (extractToolCallsFromAssistant msg) @ rem"
    and seen: "rs_seenToolResultIds st2' = rs_seenToolResultIds (afterTurn clock msg st1 sp rem)"
    and orph: "rs_droppedOrphanCount st2' = rs_droppedOrphanCount st2"
    using replay_turn [OF Turn.hyps(1,2) Turn.prems tail, where clock = clock and ?clock2.0 = clock2]
    by blast
  from Turn.IH [OF seen] show ?case
    by (simp add: produced_turn [OF Turn.hyps(1,2)] r out orph)
qed

lemma pushToolResult_added [simp]: "rs_added (pushToolResult r st) = rs_added st"
  by (simp add: pushToolResult_def split: option.splits)

lemma emit_added_mono: "length (rs_added st) \<le> length (rs_added (emitToolResults clock sp st calls))"
proof (induction calls arbitrary: st)
  case Nil
  then show ?case by simp
next
  case (Cons call calls)
  show ?case
  proof (cases "map_of sp (tc_id call)")
    case None
    let ?missing = "makeMissingToolResult (clock (length (rs_added st))) (tc_id call) (tc_name call)"
    let ?st = "pushToolResult ?missing (st\<lparr>rs_added := rs_added st @ [?missing], rs_changed := True\<rparr>)"
    have "length (rs_added ?st) \<le> length (rs_added (emitToolResults clock sp ?st calls))"
      by (rule Cons.IH)
    then show ?thesis using None by (simp add: Let_def)
  next
    case (Some existing)
    then show ?thesis using Cons.IH [of "pushToolResult existing st"] by simp
  qed
qed

lemma emit_no_clock:
  "length (rs_added (emitToolResults clock sp st calls)) = length (rs_added st) \<Longrightarrow>
   emitToolResults clock2 sp st calls = emitToolResults clock sp st calls"
proof (induction calls arbitrary: st)
  case Nil
  then show ?case by simp
next
  case (Cons call calls)
  show ?case
  proof (cases "map_of sp (tc_id call)")
    case None
    let ?missing = "makeMissingToolResult (clock (length (rs_added st))) (tc_id call) (tc_name call)"
    let ?st = "pushToolResult ?missing (st\<lparr>rs_added := rs_added st @ [?missing], rs_changed := True\<rparr>)"
    have "length (rs_added ?st) \<le> length (rs_added (emitToolResults clock sp ?st calls))"
      by (rule emit_added_mono)
    then have "Suc (length (rs_added st)) \<le> length (rs_added (emitToolResults clock sp st (call # calls)))"
      using None by (simp add: Let_def)
    then show ?thesis using Cons.prems by simp
  next
    case (Some existing)
    then show ?thesis using Cons.IH [of "pushToolResult existing st"] Cons.prems by simp
  qed
qed

lemma afterTurn_added_mono:
  "length (rs_added st1) \<le> length (rs_added (afterTurn clock msg st1 sp rem))"
proof -
  define st3 where "st3 = (if sp \<noteq> [] \<and> rem \<noteq> []
           then (pushMsgs [msg] st1)\<lparr>rs_moved := True, rs_changed := True\<rparr>
           else pushMsgs [msg] st1)"
  have "rs_added st3 = rs_added st1" by (simp add: st3_def)
  then show ?thesis
    using emit_added_mono [of st3 clock sp "extractToolCallsFromAssistant msg"]
    by (simp add: afterTurn_def st3_def [symmetric])
qed

lemma afterTurn_no_clock:
  assumes "length (rs_added (afterTurn clock msg st1 sp rem)) = length (rs_added st1)"
  shows "afterTurn clock2 msg st1 sp rem = afterTurn clock msg st1 sp rem"
proof -
  define st3 where "st3 = (if sp \<noteq> [] \<and> rem \<noteq> []
           then (pushMsgs [msg] st1)\<lparr>rs_moved := True, rs_changed := True\<rparr>
           else pushMsgs [msg] st1)"
  have "rs_added st3 = rs_added st1" by (simp add: st3_def)
  then have "length (rs_added (emitToolResults clock sp st3 (extractToolCallsFromAssistant msg)))
      = length (rs_added st3)"
    using assms by (simp add: afterTurn_def st3_def [symmetric])
  then have "emitToolResults clock2 sp st3 (extractToolCallsFromAssistant msg)
      = emitToolResults clock sp st3 (extractToolCallsFromAssistant msg)"
    by (rule emit_no_clock)
  then show ?thesis by (simp add: afterTurn_def st3_def [symmetric])
qed

lemma repairLoop_added_mono:
  "length (rs_added st) \<le> length (rs_added (repairLoop clock st msgs))"
proof (induction clock st msgs rule: repairLoop_induct)
  case (Nil clock st)
  then show ?case by simp
next
  case (Pass clock st msg rest)
  then show ?case by (simp add: repairLoop_pass)
next
  case (Orphan clock st msg rest)
  then show ?case by (simp add: repairLoop_orphan)
next
  case (Turn clock st msg rest st1 sp rem rest')
  note f = turn_scan_facts [OF Turn.hyps(2)]
  show ?case
    using Turn.IH afterTurn_added_mono [of st1 clock msg sp rem] f(6)
    by (simp add: repairLoop_turn [OF Turn.hyps(1,2)])
qed

lemma repairLoop_no_clock:
  "length (rs_added (repairLoop clock st msgs)) = length (rs_added st) \<Longrightarrow>
   repairLoop clock2 st msgs = repairLoop clock st msgs"
proof (induction clock st msgs rule: repairLoop_induct)
  case (Nil clock st)
  then show ?case by simp
next
  case (Pass clock st msg rest)
  then show ?case by (simp add: repairLoop_pass)
next
  case (Orphan clock st msg rest)
  then show ?case by (simp add: repairLoop_orphan)
next
  case (Turn clock st msg rest st1 sp rem rest')
  note f = turn_scan_facts [OF Turn.hyps(2)]
  let ?st' = "afterTurn clock msg st1 sp rem"
  have fin: "length (rs_added (repairLoop clock ?st' rest')) = length (rs_added st)"
    using Turn.prems by (simp add: repairLoop_turn [OF Turn.hyps(1,2)])
  have "length (rs_added st1) \<le> length (rs_added ?st')" by (rule afterTurn_added_mono)
  moreover have "length (rs_added ?st') \<le> length (rs_added (repairLoop clock ?st' rest'))"
    by (rule repairLoop_added_mono)
  ultimately have eq: "length (rs_added ?st') = length (rs_added st1)"
    using fin f(6) by simp
  then have same: "afterTurn clock2 msg st1 sp rem = ?st'" by (rule afterTurn_no_clock)
  have "repairLoop clock2 ?st' rest' = repairLoop clock ?st' rest'"
    by (rule Turn.IH) (use fin eq f(6) in simp)
  then show ?case
    by (simp add: repairLoop_turn [OF Turn.hyps(1,2)] same)
qed

lemma repair_idempotent:
  "deref (deref msgs (sanitizeToolUseResultPairing clock msgs))
     (sanitizeToolUseResultPairing clock2 (deref msgs (sanitizeToolUseResultPairing clock msgs)))
   = deref msgs (sanitizeToolUseResultPairing clock msgs)"
proof (cases "rs_changed (repairLoop clock repair_init msgs) \<or> rs_moved (repairLoop clock repair_init msgs)")
  case True
  let ?y = "rs_out (repairLoop clock repair_init msgs)"
  have y: "?y = produced clock repair_init msgs"
    using out_produced [of clock repair_init msgs] by (simp add: repair_init_def)
  have "rs_out (repairLoop clock2 repair_init ?y) = ?y"
    using replay_produced [of repair_init repair_init clock2 clock msgs] y
    by (simp add: repair_init_def)
  then show ?thesis using True
    by (simp add: sanitizeToolUseResultPairing_def repairToolUseResultPairing_def repairReport_def
        Let_def)
next
  case False
  then have "rs_added (repairLoop clock repair_init msgs) = []"
    using changeAccounted_loop [OF changeAccounted_init, of clock msgs]
    by (auto simp: changeAccounted_def)
  then have "repairLoop clock2 repair_init msgs = repairLoop clock repair_init msgs"
    by (intro repairLoop_no_clock) (simp add: repair_init_def)
  then show ?thesis using False
    by (simp add: sanitizeToolUseResultPairing_def repairToolUseResultPairing_def repairReport_def
        Let_def)
qed

section \<open>Idempotence (C7)\<close>

text \<open>
  C7. Applying the pairing repairer to its own result gives the same messages again,
  whatever the clock readings of the two runs; the same holds for the textifier (whatever
  the runtime of the two runs) and for the sanitizer.
\<close>

theorem transforms_idempotent:
  "deref (deref msgs (sanitizeToolUseResultPairing clock msgs))
     (sanitizeToolUseResultPairing clock2 (deref msgs (sanitizeToolUseResultPairing clock msgs)))
     = deref msgs (sanitizeToolUseResultPairing clock msgs)
   \<and> deref (deref msgs (textifyToolCallRounds rt msgs))
       (textifyToolCallRounds rt2 (deref msgs (textifyToolCallRounds rt msgs)))
     = deref msgs (textifyToolCallRounds rt msgs)
   \<and> deref (deref msgs (sanitizeToolCallInputs msgs))
       (sanitizeToolCallInputs (deref msgs (sanitizeToolCallInputs msgs)))
     = deref msgs (sanitizeToolCallInputs msgs)"
  using repair_idempotent [of msgs clock clock2] textify_idempotent [of msgs rt rt2]
    sanitize_idempotent [of msgs]
  by simp

theorem transforms_idempotent_witness:
  "deref [sampleAssistant [sampleCall ''a''], sampleUser ''hi'']
      (sanitizeToolUseResultPairing sampleClock [sampleAssistant [sampleCall ''a''], sampleUser ''hi''])
     = [sampleAssistant [sampleCall ''a''],
        makeMissingToolResult 1700000000000 (ascii ''a'') (Some (ascii ''read'')),
        sampleUser ''hi'']
   \<and> deref [sampleAssistant [sampleCall ''a''],
            makeMissingToolResult 1700000000000 (ascii ''a'') (Some (ascii ''read'')),
            sampleUser ''hi'']
      (sanitizeToolUseResultPairing sampleClock
         [sampleAssistant [sampleCall ''a''],
          makeMissingToolResult 1700000000000 (ascii ''a'') (Some (ascii ''read'')),
          sampleUser ''hi''])
     = [sampleAssistant [sampleCall ''a''],
        makeMissingToolResult 1700000000000 (ascii ''a'') (Some (ascii ''read'')),
        sampleUser ''hi'']"
proof -
  have first: "deref [sampleAssistant [sampleCall ''a''], sampleUser ''hi'']
      (sanitizeToolUseResultPairing sampleClock [sampleAssistant [sampleCall ''a''], sampleUser ''hi''])
     = [sampleAssistant [sampleCall ''a''],
        makeMissingToolResult 1700000000000 (ascii ''a'') (Some (ascii ''read'')),
        sampleUser ''hi'']"
    by (simp add: sanitizeToolUseResultPairing_def repair_defs sample_defs sampleClock_def
        scanSpan.simps Let_def)
  show ?thesis
    using transforms_idempotent
      [of "[sampleAssistant [sampleCall ''a''], sampleUser ''hi'']" sampleClock sampleClock
          sampleRuntime sampleRuntime]
    by (simp only: first simp_thms)
qed

section \<open>Results outside the span of their turn (C3)\<close>

lemma orphanResults_stops: "stopsScan r \<Longrightarrow> orphanResults X r = orphanResults Y r"
  by (cases r) (simp_all add: stopsScan_def)

lemma scanStep_orphans:
  assumes "scanStep ids m (st, sp, rem) = (st', sp', rem')" and "\<not> isAssistantMsg m"
  shows "rs_droppedOrphanCount st' + orphanResults ids rest
       = rs_droppedOrphanCount st + orphanResults ids (m # rest)"
  using assms
  by (auto simp: scanStep_def spanResultId_def isToolResultMsg_def
      split: if_splits option.splits)

lemma scanSpan_orphans:
  "scanSpan ids st sp rem msgs = (st1, sp1, rem1, r) \<Longrightarrow>
   rs_droppedOrphanCount st1 + orphanResults {} r = rs_droppedOrphanCount st + orphanResults ids msgs"
proof (induction st sp rem msgs rule: scanSpan_induct [where ids = ids])
  case (Nil st sp rem)
  then show ?case by simp
next
  case (Stop st sp rem m rest)
  then have "stopsScan (m # rest)" by (simp add: stopsScan_def)
  then have "orphanResults {} (m # rest) = orphanResults ids (m # rest)"
    by (rule orphanResults_stops)
  then show ?case using Stop by (simp add: scanSpan_stop del: orphanResults.simps)
next
  case (Step st sp rem m rest st' sp' rem')
  have "rs_droppedOrphanCount st1 + orphanResults {} r
      = rs_droppedOrphanCount st' + orphanResults ids rest"
    by (rule Step.IH) (use Step in \<open>simp add: scanSpan_step\<close>)
  then show ?case using scanStep_orphans [OF Step.hyps(2,1), of rest] by simp
qed

lemma repairLoop_orphans:
  "rs_droppedOrphanCount (repairLoop clock st msgs) = rs_droppedOrphanCount st + orphanResults {} msgs"
proof (induction clock st msgs rule: repairLoop_induct)
  case (Nil clock st)
  then show ?case by simp
next
  case (Pass clock st msg rest)
  then show ?case by (auto simp: repairLoop_pass passesThrough_def)
next
  case (Orphan clock st msg rest)
  then show ?case
    using toolResult_not_assistant [OF Orphan.hyps]
    by (auto simp: repairLoop_orphan split: option.splits)
next
  case (Turn clock st msg rest st1 sp rem rest')
  note f = turn_scan_facts [OF Turn.hyps(2)]
  have a: "isAssistantMsg msg" using Turn.hyps(1) by (simp add: startsTurn_def)
  have "orphanResults {} (msg # rest)
      = orphanResults (set (map tc_id (extractToolCallsFromAssistant msg))) rest"
    using Turn.hyps(1) a by (simp add: invocationIds_def)
  then show ?case
    using Turn.IH scanSpan_orphans [OF Turn.hyps(2)] afterTurn_result(3) [OF f(1), of clock msg st1 rem]
    by (simp add: repairLoop_turn [OF Turn.hyps(1,2)])
qed

lemma repaired_no_orphans:
  "orphanResults {} (deref msgs (rp_messages (repairToolUseResultPairing clock msgs))) = 0"
proof (cases "rs_changed (repairLoop clock repair_init msgs) \<or> rs_moved (repairLoop clock repair_init msgs)")
  case True
  let ?y = "rs_out (repairLoop clock repair_init msgs)"
  have y: "?y = produced clock repair_init msgs"
    using out_produced [of clock repair_init msgs] by (simp add: repair_init_def)
  have "rs_droppedOrphanCount (repairLoop clock repair_init ?y) = 0"
    using replay_produced [of repair_init repair_init clock clock msgs] y
    by (simp add: repair_init_def)
  then have "orphanResults {} ?y = 0"
    by (simp add: repairLoop_orphans)
  then show ?thesis using True
    by (simp add: repairToolUseResultPairing_def repairReport_def Let_def)
next
  case False
  then have "rs_droppedOrphanCount (repairLoop clock repair_init msgs) = 0"
    using changeAccounted_loop [OF changeAccounted_init, of clock msgs]
    by (auto simp: changeAccounted_def)
  then have "orphanResults {} msgs = 0"
    by (simp add: repairLoop_orphans)
  then show ?thesis using False
    by (simp add: repairToolUseResultPairing_def repairReport_def Let_def)
qed

text \<open>
  C3, as the code has it. A tool-result message that lies outside the span of an assistant
  turn invoking its id is dropped and counted in \<^verbatim>\<open>droppedOrphanCount\<close>, whether or
  not an earlier result has the same correlation id: the counter is the number of such
  messages in the input, and the returned transcript has none.
\<close>

theorem results_outside_span_counted_as_orphans:
  "droppedOrphanCount (repairToolUseResultPairing clock msgs) = orphanResults {} msgs
   \<and> orphanResults {} (deref msgs (rp_messages (repairToolUseResultPairing clock msgs))) = 0"
  using repairLoop_orphans [of clock repair_init msgs] repaired_no_orphans [of msgs clock]
  by (simp add: repairToolUseResultPairing_def repairReport_def Let_def repair_init_def)

theorem results_outside_span_counted_as_orphans_witness:
  "orphanResults {}
     [sampleAssistant [sampleCall ''a''], sampleResult ''a'' ''first'', sampleAssistant [],
      sampleResult ''a'' ''second''] = 1
   \<and> droppedOrphanCount (repairToolUseResultPairing sampleClock
        [sampleAssistant [sampleCall ''a''], sampleResult ''a'' ''first'', sampleAssistant [],
         sampleResult ''a'' ''second'']) = 1"
proof -
  have "orphanResults {}
     [sampleAssistant [sampleCall ''a''], sampleResult ''a'' ''first'', sampleAssistant [],
      sampleResult ''a'' ''second''] = 1"
    by (simp add: property_defs startsTurn_def sample_defs)
  then show ?thesis
    using results_outside_span_counted_as_orphans
      [of sampleClock "[sampleAssistant [sampleCall ''a''], sampleResult ''a'' ''first'',
         sampleAssistant [], sampleResult ''a'' ''second'']"]
    by simp
qed

text \<open>
  The claim as stated fails on a transcript with two tool results for the id \<^verbatim>\<open>a\<close>, the
  second one after a later assistant message without invocations: the second occurrence is
  dropped, but as an orphan; \<^verbatim>\<open>droppedDuplicateCount\<close> stays 0.
\<close>

theorem second_result_dropped_as_orphan:
  "toolResultIds
     [sampleAssistant [sampleCall ''a''], sampleResult ''a'' ''first'', sampleAssistant [],
      sampleResult ''a'' ''second''] = [ascii ''a'', ascii ''a'']
   \<and> repairToolUseResultPairing sampleClock
        [sampleAssistant [sampleCall ''a''], sampleResult ''a'' ''first'', sampleAssistant [],
         sampleResult ''a'' ''second'']
     = \<lparr>rp_messages = NewArray [sampleAssistant [sampleCall ''a''], sampleResult ''a'' ''first'',
                                 sampleAssistant []],
        added = [], droppedDuplicateCount = 0, droppedOrphanCount = 1, moved = True\<rparr>"
  by (simp add: repair_defs property_defs sample_defs scanSpan.simps Let_def)

section \<open>The sequence rebuilt by the pairing repairer\<close>

lemma toolResultIds_append: "toolResultIds (xs @ ys) = toolResultIds xs @ toolResultIds ys"
  by (induction xs) (auto split: option.splits)

lemma toolResultIds_none: "\<forall>m\<in>set xs. \<not> isToolResultMsg m \<Longrightarrow> toolResultIds xs = []"
  by (induction xs) auto

lemma emitted_ids:
  assumes wk: "wellKeyed ids sp"
  shows "\<forall>call\<in>set calls. tc_id call \<noteq> [] \<Longrightarrow>
    distinct (toolResultIds (emitted clock sp seen k calls))
    \<and> set (toolResultIds (emitted clock sp seen k calls)) \<inter> seen = {}
    \<and> set (toolResultIds (emitted clock sp seen k calls)) \<subseteq> set (map tc_id calls)"
proof (induction calls arbitrary: seen k)
  case Nil
  then show ?case by simp
next
  case (Cons call calls)
  then have ne: "tc_id call \<noteq> []" and rest: "\<forall>call\<in>set calls. tc_id call \<noteq> []" by simp_all
  note IH = Cons.IH [OF rest]
  let ?a = "tc_id call"
  show ?case
  proof (cases "?a \<in> seen")
    case True
    obtain k' where "emitted clock sp seen k (call # calls) = emitted clock sp seen k' calls"
      using True by (cases "map_of sp ?a") auto
    then show ?thesis using IH [of seen k'] by auto
  next
    case False
    obtain r1 k' where e1: "emitted clock sp seen k (call # calls)
        = r1 # emitted clock sp (insert ?a seen) k' calls"
      and id1: "extractToolResultId r1 = Some ?a" and tr: "isToolResultMsg r1"
    proof (cases "map_of sp ?a")
      case None
      then show ?thesis using that False missing_id [OF ne] missing_isToolResult by simp
    next
      case (Some existing)
      then show ?thesis using that False wellKeyed_lookup [OF wk Some] by simp
    qed
    have "toolResultIds (emitted clock sp seen k (call # calls))
        = ?a # toolResultIds (emitted clock sp (insert ?a seen) k' calls)"
      using e1 id1 tr by simp
    then show ?thesis using IH [of "insert ?a seen" k'] False by auto
  qed
qed

lemma repairLoop_results_unique:
  "distinct (toolResultIds (rs_out st)) \<Longrightarrow>
   set (toolResultIds (rs_out st)) \<subseteq> rs_seenToolResultIds st \<Longrightarrow>
   distinct (toolResultIds (rs_out (repairLoop clock st msgs)))
   \<and> set (toolResultIds (rs_out (repairLoop clock st msgs)))
       \<subseteq> rs_seenToolResultIds (repairLoop clock st msgs)"
proof (induction clock st msgs rule: repairLoop_induct)
  case (Nil clock st)
  then show ?case by simp
next
  case (Pass clock st msg rest)
  have "\<not> isToolResultMsg msg"
    using Pass.hyps by (simp add: passesThrough_def)
  then show ?case
    using Pass by (simp add: repairLoop_pass toolResultIds_append)
next
  case (Orphan clock st msg rest)
  then show ?case by (simp add: repairLoop_orphan)
next
  case (Turn clock st msg rest st1 sp rem rest')
  note f = turn_scan_facts [OF Turn.hyps(2)]
  let ?E = "emitted clock sp (rs_seenToolResultIds st1) (length (rs_added st1))
              (extractToolCallsFromAssistant msg)"
  let ?st' = "afterTurn clock msg st1 sp rem"
  have msg: "\<not> isToolResultMsg msg"
    using Turn.hyps(1) toolResult_not_assistant [of msg] by (auto simp: startsTurn_def)
  have rem: "toolResultIds rem = []"
    by (rule toolResultIds_none) (use f(2) in blast)
  have out: "toolResultIds (rs_out ?st') = toolResultIds (rs_out st) @ toolResultIds ?E"
    using afterTurn_result(1) [OF f(1), of clock msg st1 rem] msg rem f(4)
    by (simp add: toolResultIds_append)
  have seen: "rs_seenToolResultIds ?st'
      = rs_seenToolResultIds st \<union> set (map tc_id (extractToolCallsFromAssistant msg))"
    using afterTurn_result(2) [OF f(1), of clock msg st1 rem] f(5) by simp
  have e: "distinct (toolResultIds ?E) \<and> set (toolResultIds ?E) \<inter> rs_seenToolResultIds st1 = {}
      \<and> set (toolResultIds ?E) \<subseteq> set (map tc_id (extractToolCallsFromAssistant msg))"
    by (rule emitted_ids [OF f(1) extractToolCalls_ids])
  have "distinct (toolResultIds (rs_out ?st'))"
    using out e Turn.prems f(5) by auto
  moreover have "set (toolResultIds (rs_out ?st')) \<subseteq> rs_seenToolResultIds ?st'"
    using out seen e Turn.prems by auto
  ultimately show ?case
    using Turn.IH by (simp add: repairLoop_turn [OF Turn.hyps(1,2)])
qed

lemma turn_condition:
  "(isAssistantMsg m \<and> \<not> isErrorOrAborted m \<and> invocationIds m \<noteq> []) = startsTurn m"
  by (auto simp: startsTurn_def invocationIds_def)

lemma pairingInvariant_skip:
  "\<forall>m\<in>set xs. \<not> isAssistantMsg m \<Longrightarrow> pairingInvariant (xs @ ys) = pairingInvariant ys"
  by (induction xs) auto

lemma followedByResults_block:
  "map extractToolResultId rs = map Some ids \<Longrightarrow> \<forall>r\<in>set rs. isToolResultMsg r \<Longrightarrow>
   (case tail of [] \<Rightarrow> True | m # _ \<Rightarrow> \<not> isToolResultMsg m) \<Longrightarrow>
   followedByResults ids (rs @ tail)"
proof (induction ids arbitrary: rs)
  case Nil
  then show ?case by (cases tail) simp_all
next
  case (Cons i ids)
  then obtain r rs' where rs: "rs = r # rs'" by (cases rs) auto
  then show ?case using Cons by simp
qed

lemma emitted_exact:
  assumes wk: "wellKeyed ids sp"
  shows "\<forall>call\<in>set calls. tc_id call \<noteq> [] \<Longrightarrow> distinct (map tc_id calls) \<Longrightarrow>
    set (map tc_id calls) \<inter> seen = {} \<Longrightarrow>
    map extractToolResultId (emitted clock sp seen k calls) = map Some (map tc_id calls)
    \<and> (\<forall>r\<in>set (emitted clock sp seen k calls). isToolResultMsg r)"
proof (induction calls arbitrary: seen k)
  case Nil
  then show ?case by simp
next
  case (Cons call calls)
  then have ne: "tc_id call \<noteq> []" and rest: "\<forall>call\<in>set calls. tc_id call \<noteq> []" by simp_all
  let ?a = "tc_id call"
  have fresh: "?a \<notin> seen" using Cons.prems(3) by auto
  obtain r1 k' where e1: "emitted clock sp seen k (call # calls)
      = r1 # emitted clock sp (insert ?a seen) k' calls"
    and id1: "extractToolResultId r1 = Some ?a" and tr: "isToolResultMsg r1"
  proof (cases "map_of sp ?a")
    case None
    then show ?thesis using that fresh missing_id [OF ne] missing_isToolResult by simp
  next
    case (Some existing)
    then show ?thesis using that fresh wellKeyed_lookup [OF wk Some] by simp
  qed
  have "map extractToolResultId (emitted clock sp (insert ?a seen) k' calls) = map Some (map tc_id calls)
    \<and> (\<forall>r\<in>set (emitted clock sp (insert ?a seen) k' calls). isToolResultMsg r)"
    by (rule Cons.IH [OF rest]) (use Cons.prems in auto)
  then show ?case using e1 id1 tr by simp
qed

lemma scanSpan_invocationIds:
  "scanSpan ids st sp rem msgs = (st1, sp1, rem1, r) \<Longrightarrow>
   concat (map invocationIds msgs) = concat (map invocationIds r)"
proof (induction st sp rem msgs rule: scanSpan_induct [where ids = ids])
  case (Nil st sp rem)
  then show ?case by simp
next
  case (Stop st sp rem m rest)
  then show ?case by (auto simp: scanSpan_stop)
next
  case (Step st sp rem m rest st' sp' rem')
  then show ?case by (simp add: scanSpan_step invocationIds_def)
qed

lemma produced_pairing:
  "uniqueInvocationIds msgs \<Longrightarrow>
   set (concat (map invocationIds msgs)) \<inter> rs_seenToolResultIds st = {} \<Longrightarrow>
   pairingInvariant (produced clock st msgs)"
proof (induction clock st msgs rule: repairLoop_induct)
  case (Nil clock st)
  then show ?case by simp
next
  case (Pass clock st msg rest)
  have nt: "\<not> startsTurn msg" using Pass.hyps by (simp add: passesThrough_def)
  have "pairingInvariant (produced clock (pushMsgs [msg] st) rest)"
    by (rule Pass.IH) (use Pass.prems in \<open>auto simp: uniqueInvocationIds_def\<close>)
  then show ?case
    using nt turn_condition [of msg] by (auto simp: produced_pass [OF Pass.hyps])
next
  case (Orphan clock st msg rest)
  have "pairingInvariant (produced clock (countOrphan st) rest)"
    by (rule Orphan.IH) (use Orphan.prems in \<open>auto simp: uniqueInvocationIds_def\<close>)
  then show ?case by (simp add: produced_orphan [OF Orphan.hyps])
next
  case (Turn clock st msg rest st1 sp rem rest')
  note f = turn_scan_facts [OF Turn.hyps(2)]
  let ?calls = "extractToolCallsFromAssistant msg"
  let ?E = "emitted clock sp (rs_seenToolResultIds st) (length (rs_added st)) ?calls"
  let ?st' = "afterTurn clock msg st1 sp rem"
  let ?P' = "produced clock ?st' rest'"
  have a: "isAssistantMsg msg" using Turn.hyps(1) by (simp add: startsTurn_def)
  then have ids: "invocationIds msg = map tc_id ?calls" by (simp add: invocationIds_def)
  have same: "concat (map invocationIds rest) = concat (map invocationIds rest')"
    by (rule scanSpan_invocationIds [OF Turn.hyps(2)])
  have d: "distinct (map tc_id ?calls)"
    and disj: "set (map tc_id ?calls) \<inter> set (concat (map invocationIds rest')) = {}"
    and u': "uniqueInvocationIds rest'"
    using Turn.prems(1) ids same by (auto simp: uniqueInvocationIds_def)
  have fresh: "set (map tc_id ?calls) \<inter> rs_seenToolResultIds st = {}"
    using Turn.prems(2) ids by auto
  have seen': "rs_seenToolResultIds ?st' = rs_seenToolResultIds st \<union> set (map tc_id ?calls)"
    using afterTurn_result(2) [OF f(1), of clock msg st1 rem] f(5) by simp
  have rest_inv: "pairingInvariant ?P'"
  proof (rule Turn.IH [OF u'])
    show "set (concat (map invocationIds rest')) \<inter> rs_seenToolResultIds ?st' = {}"
      using seen' disj Turn.prems(2) same by auto
  qed
  have ex: "map extractToolResultId ?E = map Some (map tc_id ?calls)
      \<and> (\<forall>r\<in>set ?E. isToolResultMsg r)"
    by (rule emitted_exact [OF f(1) extractToolCalls_ids d fresh])
  have tail: "case rem @ ?P' of [] \<Rightarrow> True | m # _ \<Rightarrow> \<not> isToolResultMsg m"
  proof (cases rem)
    case Nil
    have "stopsScan ?P'" by (rule produced_stops [OF f(3)])
    then show ?thesis using Nil toolResult_not_assistant
      by (auto simp: stopsScan_def split: list.splits)
  next
    case (Cons x xs)
    then show ?thesis using f(2) by simp
  qed
  have follow: "followedByResults (map tc_id ?calls) (?E @ rem @ ?P')"
    by (rule followedByResults_block) (use ex tail in simp_all)
  have noasst: "\<forall>m\<in>set (?E @ rem). \<not> isAssistantMsg m"
    using ex f(2) toolResult_not_assistant by auto
  have "pairingInvariant ((?E @ rem) @ ?P') = pairingInvariant ?P'"
    by (rule pairingInvariant_skip [OF noasst])
  then have "pairingInvariant (?E @ rem @ ?P')" using rest_inv by simp
  then show ?case
    using follow ids by (simp add: produced_turn [OF Turn.hyps(1,2)])
qed

text \<open>
  The array \<^verbatim>\<open>out\<close> that the loop builds has the two properties asked of the repaired
  transcript: no two of its tool results share a correlation id, and, when the invocation
  ids of the input are unique, every assistant turn in it is directly followed by exactly
  its results in invocation order. A returned transcript can violate them only when the
  loop has not recorded that \<^verbatim>\<open>out\<close> differs from the input, and the input is
  returned.
\<close>

lemma rebuilt_results_unique:
  "distinct (toolResultIds (rs_out (repairLoop clock repair_init msgs)))"
  using repairLoop_results_unique [of repair_init clock msgs] by (simp add: repair_init_def)

lemma rebuilt_pairing_invariant:
  "uniqueInvocationIds msgs \<Longrightarrow> pairingInvariant (rs_out (repairLoop clock repair_init msgs))"
  using produced_pairing [of msgs repair_init clock] out_produced [of clock repair_init msgs]
  by (simp add: repair_init_def)

section \<open>The relocation flag of the repair loop\<close>

lemma not_turn_relocates:
  "\<not> startsTurn m \<Longrightarrow> turnRelocates S (m # ms) = turnRelocates S ms"
  by simp

lemma scanStep_flags:
  assumes "scanStep ids m (st, sp, rem) = (st', sp', rem')"
  shows "(sp' \<noteq> []) = (sp \<noteq> [] \<or> isSpanResult ids (rs_seenToolResultIds st) m)"
    and "(rem' \<noteq> []) = (rem \<noteq> [] \<or> \<not> isToolResultMsg m)"
  using assms
  by (auto simp: scanStep_def spanResultId_def isToolResultMsg_def isSpanResult_def
      split: if_splits option.splits)

lemma spanOf_simps [simp]:
  "spanOf [] = []"
  "isAssistantMsg m \<Longrightarrow> spanOf (m # ms) = []"
  "\<not> isAssistantMsg m \<Longrightarrow> spanOf (m # ms) = m # spanOf ms"
  by (simp_all add: spanOf_def)

lemma scanSpan_flags:
  "scanSpan ids st sp rem msgs = (st1, sp1, rem1, r) \<Longrightarrow>
   (sp1 \<noteq> []) = (sp \<noteq> [] \<or> list_ex (isSpanResult ids (rs_seenToolResultIds st)) (spanOf msgs))
   \<and> (rem1 \<noteq> []) = (rem \<noteq> [] \<or> list_ex (\<lambda>x. \<not> isToolResultMsg x) (spanOf msgs))"
proof (induction st sp rem msgs rule: scanSpan_induct [where ids = ids])
  case (Nil st sp rem)
  then show ?case by simp
next
  case (Stop st sp rem m rest)
  then show ?case by (auto simp: scanSpan_stop)
next
  case (Step st sp rem m rest st' sp' rem')
  note fl = scanStep_flags [OF Step.hyps(2)]
  have seen: "rs_seenToolResultIds st' = rs_seenToolResultIds st"
    by (rule scanStep_frame(2) [OF Step.hyps(2)])
  have "scanSpan ids st' sp' rem' rest = (st1, sp1, rem1, r)"
    using Step.prems Step.hyps by (simp add: scanSpan_step)
  from Step.IH [OF this] show ?case
    using Step.hyps(1) fl seen by auto
qed

lemma scanSpan_turnRelocates:
  "scanSpan ids st sp rem msgs = (st1, sp1, rem1, r) \<Longrightarrow>
   turnRelocates S msgs = turnRelocates S r"
proof (induction st sp rem msgs rule: scanSpan_induct [where ids = ids])
  case (Nil st sp rem)
  then show ?case by simp
next
  case (Stop st sp rem m rest)
  then show ?case by (auto simp: scanSpan_stop)
next
  case (Step st sp rem m rest st' sp' rem')
  have "\<not> startsTurn m" using Step.hyps(1) by (simp add: startsTurn_def)
  then show ?case using Step by (simp add: scanSpan_step)
qed

lemma pushToolResult_moved [simp]: "rs_moved (pushToolResult r st) = rs_moved st"
  by (simp add: pushToolResult_def split: option.splits)

lemma emit_moved: "rs_moved (emitToolResults clock sp st calls) = rs_moved st"
proof (induction calls arbitrary: st)
  case Nil
  then show ?case by simp
next
  case (Cons call calls)
  show ?case
    by (cases "map_of sp (tc_id call)") (simp_all add: Let_def Cons.IH)
qed

lemma afterTurn_moved:
  "rs_moved (afterTurn clock msg st1 sp rem) = (rs_moved st1 \<or> (sp \<noteq> [] \<and> rem \<noteq> []))"
  by (simp add: afterTurn_def emit_moved)

lemma repairLoop_moved:
  "rs_moved (repairLoop clock st msgs)
     = (rs_moved st \<or> turnRelocates (rs_seenToolResultIds st) msgs)"
proof (induction clock st msgs rule: repairLoop_induct)
  case (Nil clock st)
  then show ?case by simp
next
  case (Pass clock st msg rest)
  have "\<not> startsTurn msg" using Pass.hyps by (simp add: passesThrough_def)
  then show ?case using Pass.IH by (simp add: repairLoop_pass [OF Pass.hyps])
next
  case (Orphan clock st msg rest)
  have "\<not> startsTurn msg"
    using Orphan.hyps toolResult_not_assistant by (auto simp: startsTurn_def)
  then show ?case using Orphan.IH by (simp add: repairLoop_orphan [OF Orphan.hyps])
next
  case (Turn clock st msg rest st1 sp rem rest')
  note f = turn_scan_facts [OF Turn.hyps(2)]
  let ?ids = "set (map tc_id (extractToolCallsFromAssistant msg))"
  have a: "isAssistantMsg msg" using Turn.hyps(1) by (simp add: startsTurn_def)
  then have ids: "invocationIds msg = map tc_id (extractToolCallsFromAssistant msg)"
    by (simp add: invocationIds_def)
  have moved1: "rs_moved st1 = rs_moved st"
    using scanSpan_frame [OF Turn.hyps(2)] by simp
  have here: "turnRelocates (rs_seenToolResultIds st) (msg # rest)
      = ((sp \<noteq> [] \<and> rem \<noteq> []) \<or> turnRelocates (rs_seenToolResultIds st \<union> ?ids) rest)"
    using scanSpan_flags [OF Turn.hyps(2)] Turn.hyps(1) by (simp add: ids)
  have seen': "rs_seenToolResultIds (afterTurn clock msg st1 sp rem)
      = rs_seenToolResultIds st \<union> ?ids"
    using afterTurn_result(2) [OF f(1), of clock msg st1 rem] f(5) by simp
  have rest: "turnRelocates (rs_seenToolResultIds st \<union> ?ids) rest
      = turnRelocates (rs_seenToolResultIds st \<union> ?ids) rest'"
    by (rule scanSpan_turnRelocates [OF Turn.hyps(2)])
  have "rs_moved (repairLoop clock st (msg # rest))
      = (rs_moved (afterTurn clock msg st1 sp rem)
         \<or> turnRelocates (rs_seenToolResultIds st \<union> ?ids) rest')"
    using Turn.IH seen' by (simp add: repairLoop_turn [OF Turn.hyps(1,2)])
  then show ?case
    unfolding here rest afterTurn_moved moved1 by blast
qed

lemma repair_moved_flag:
  "rs_moved (repairLoop clock repair_init msgs) = turnRelocates {} msgs"
  using repairLoop_moved [of clock repair_init msgs] by (simp add: repair_init_def)

lemmas relocation_defs =
  startsTurn_def isSpanResult_def spanOf_def isAssistantMsg_def isToolResultMsg_def
  isErrorOrAborted_def invocationIds_def

section \<open>The reported flag \<^verbatim>\<open>moved\<close> (C5)\<close>

text \<open>
  C5, as the code has it. The report's \<^verbatim>\<open>moved\<close> is \<^verbatim>\<open>changed || moved\<close>: it is true
  exactly when some assistant turn of the transcript has a span result together with a
  non-empty remainder (\<open>turnRelocates\<close>, a condition on the input transcript), or a tool
  result was dropped and counted as duplicate or as orphan, or a synthetic result was
  added. A span result is a tool result of the turn's span whose id the turn invokes and
  no earlier turn invoked.
\<close>

theorem moved_reports_any_change:
  "moved (repairToolUseResultPairing clock messages) =
     (turnRelocates {} messages
      \<or> 0 < droppedDuplicateCount (repairToolUseResultPairing clock messages)
      \<or> 0 < droppedOrphanCount (repairToolUseResultPairing clock messages)
      \<or> added (repairToolUseResultPairing clock messages) \<noteq> [])"
  using changeAccounted_loop [OF changeAccounted_init, of clock messages]
    repair_moved_flag [of clock messages]
  by (auto simp: repairToolUseResultPairing_def repairReport_def Let_def changeAccounted_def)

text \<open>
  Two instances: a turn whose result comes after a user message (a relocation, nothing
  dropped or added), and a turn without any result (a synthetic result, no relocation).
\<close>

theorem moved_reports_any_change_witness:
  "turnRelocates {} [sampleAssistant [sampleCall ''a''], sampleUser ''ok'', sampleResult ''a'' ''x'']
   \<and> droppedDuplicateCount (repairToolUseResultPairing sampleClock
        [sampleAssistant [sampleCall ''a''], sampleUser ''ok'', sampleResult ''a'' ''x'']) = 0
   \<and> droppedOrphanCount (repairToolUseResultPairing sampleClock
        [sampleAssistant [sampleCall ''a''], sampleUser ''ok'', sampleResult ''a'' ''x'']) = 0
   \<and> added (repairToolUseResultPairing sampleClock
        [sampleAssistant [sampleCall ''a''], sampleUser ''ok'', sampleResult ''a'' ''x'']) = []
   \<and> moved (repairToolUseResultPairing sampleClock
        [sampleAssistant [sampleCall ''a''], sampleUser ''ok'', sampleResult ''a'' ''x''])
   \<and> \<not> turnRelocates {} [sampleAssistant [sampleCall ''a'']]
   \<and> added (repairToolUseResultPairing sampleClock [sampleAssistant [sampleCall ''a'']]) \<noteq> []
   \<and> moved (repairToolUseResultPairing sampleClock [sampleAssistant [sampleCall ''a'']])"
  using moved_reports_any_change [of sampleClock
      "[sampleAssistant [sampleCall ''a''], sampleUser ''ok'', sampleResult ''a'' ''x'']"]
    moved_reports_any_change [of sampleClock "[sampleAssistant [sampleCall ''a'']]"]
  by (simp add: repair_defs sample_defs relocation_defs scanSpan.simps Let_def)

text \<open>
  The claim as stated fails on a transcript that is a single orphan tool result: there is
  no assistant turn, so no turn has a span result, and the report says \<^verbatim>\<open>moved = true\<close>.
\<close>

theorem moved_without_relocation:
  "moved (repairToolUseResultPairing sampleClock [sampleResult ''a'' ''x''])
   \<and> \<not> turnRelocates {} [sampleResult ''a'' ''x'']"
  by (simp add: repair_defs sample_defs relocation_defs Let_def)

section \<open>Identity on no-op (C6)\<close>





section \<open>The text embedded by the textifier\<close>

lemma extractToolResultText_embedded: "extractToolResultText result = embeddedText result"
  by (cases "getProp result ''content''")
     (simp_all add: extractToolResultText_def embeddedText_def resultText_def hasStringContent_def
       truncateToolResultForTextify_def TEXTIFY_MAX_RESULT_CHARS_def TRUNCATION_MARKER_def Let_def)

lemma firstResult_simps:
  "firstResult i [] = None"
  "firstResult i (m # msgs)
     = (if isToolResultMsg m \<and> extractToolResultId m = Some i then Some m
        else firstResult i msgs)"
  by (simp_all add: firstResult_def)

lemma collectToolResults_first:
  "map_of (collectToolResults sp msgs) i
     = (case map_of sp i of Some r \<Rightarrow> Some r | None \<Rightarrow> firstResult i msgs)"
proof (induction msgs arbitrary: sp)
  case Nil
  then show ?case by (simp add: firstResult_simps split: option.splits)
next
  case (Cons m msgs)
  show ?case
  proof (cases "isToolResultMsg m")
    case False
    then show ?thesis using Cons.IH [of sp]
      by (auto simp: isToolResultMsg_def firstResult_simps split: option.splits)
  next
    case True
    then have tr: "isObject m \<and> getProp m ''role'' = JStr (ascii ''toolResult'')"
      by (simp add: isToolResultMsg_def)
    show ?thesis
    proof (cases "extractToolResultId m")
      case None
      then show ?thesis using tr True Cons.IH [of sp]
        by (auto simp: firstResult_simps split: option.splits)
    next
      case (Some j)
      show ?thesis
      proof (cases "map_of sp j")
        case None
        then show ?thesis
          using tr True Some Cons.IH [of "sp @ [(j, m)]"]
          by (auto simp: firstResult_simps map_add_def split: option.splits)
      next
        case (Some y)
        then show ?thesis
          using tr True \<open>extractToolResultId m = Some j\<close> Cons.IH [of sp]
          by (auto simp: firstResult_simps split: option.splits)
      qed
    qed
  qed
qed

lemma collectToolResults_firstResult:
  "map_of (collectToolResults [] msgs) i = firstResult i msgs"
  by (simp add: collectToolResults_first)

lemma textifyToolCalls_converted:
  "textifyToolCalls rt (collectToolResults [] msgs) tp rms consumed k tcs = (tp', rms', consumed', k') \<Longrightarrow>
   tp' = tp @ map (toolCallSummary rt) tcs
   \<and> map (\<lambda>u. getProp u ''content'') rms'
       = map (\<lambda>u. getProp u ''content'') rms
         @ List.map_filter (\<lambda>tc. map_option (convertedContent rt tc) (consumedResult msgs tc)) tcs"
proof (induction tcs arbitrary: tp rms consumed k)
  case Nil
  then show ?case by (simp add:)
next
  case (Cons tc tcs)
  have look: "(case getProp tc ''id'' of JStr i \<Rightarrow> map_of (collectToolResults [] msgs) i | _ \<Rightarrow> None)
      = consumedResult msgs tc"
    by (simp add: consumedResult_def collectToolResults_firstResult split: jsval.splits)
  show ?case
  proof (cases "consumedResult msgs tc")
    case None
    then show ?thesis
      using Cons.prems Cons.IH [of "tp @ [toolCallSummary rt tc]" rms consumed k] look
      by (simp add: Let_def)
  next
    case (Some result)
    show ?thesis
      using Some look Cons.prems
      apply (simp add: Let_def)
      apply (drule Cons.IH)
      apply (simp add: convertedContent_def [abs_def] extractToolResultText_embedded)
      done
  qed
qed

lemma textifyTurn_out:
  assumes "textifiedBlocks a \<noteq> []"
  shows "\<exists>users. tx_out (textifyTurn rt (collectToolResults [] msgs) a st)
             = tx_out st @ textifiedAssistant rt a # users
           \<and> list_all isUserText users
           \<and> map (\<lambda>u. getProp u ''content'') users = convertedContents rt msgs a"
proof -
  from assms have asst: "isAssistantMsg a"
    by (auto simp: textifiedBlocks_def split: if_splits)
  from assms obtain content where c: "getProp a ''content'' = JArr content"
    by (cases "getProp a ''content''") (auto simp: textifiedBlocks_def split: if_splits)
  have tb: "textifiedBlocks a = filter isTextifiedBlock content"
    using asst c by (simp add: textifiedBlocks_def)
  obtain tp rs cs k where tc: "textifyToolCalls rt (collectToolResults [] msgs) [] []
      (tx_consumedToolResultIds st) (tx_clockCalls st) (filter isTextifiedBlock content)
      = (tp, rs, cs, k)"
    by (metis prod_cases4)
  note conv = textifyToolCalls_converted [OF tc]
  have "\<forall>r\<in>set rs. isUserText r"
    using textifyToolCalls_results [OF tc] by simp
  then have users: "list_all isUserText rs" by (simp add: list_all_iff)
  have "tx_out (textifyTurn rt (collectToolResults [] msgs) a st)
      = tx_out st @ textifiedAssistant rt a # rs"
    using conv by (simp add: textifyTurn_def textifiedAssistant_def c tc)
  moreover have "map (\<lambda>u. getProp u ''content'') rs = convertedContents rt msgs a"
    using conv by (simp add: convertedContents_def tb)
  ultimately show ?thesis using users by blast
qed

lemma textifyLoop_append:
  "textifyLoop rt tbl st (xs @ ys) = textifyLoop rt tbl (textifyLoop rt tbl st xs) ys"
proof (induction xs arbitrary: st)
  case Nil
  then show ?case by simp
next
  case (Cons msg xs)
  show ?case
  proof (cases rule: textify_cases [where msg = msg and st = st])
    case Turn
    then show ?thesis using Cons.IH by (simp add: textifyLoop_turn)
  next
    case Skip
    then show ?thesis using Cons.IH by (simp add: textifyLoop_skip)
  next
    case Push
    then show ?thesis using Cons.IH by (simp add: textifyLoop_push)
  qed
qed

lemma textifyTurn_changed: "textifiedBlocks a \<noteq> [] \<Longrightarrow> tx_changed (textifyTurn rt tbl a st)"
  using textifyTurn_facts [of a rt tbl st] by (metis textify_state.select_convs(2))

section \<open>Truncation of textified results (C8)\<close>

text \<open>
  C8, as the code has it. For every assistant message of the transcript with invocation
  blocks, the output of \<^verbatim>\<open>textifyToolCallRounds\<close> holds the rewritten assistant message
  followed by one user message for every block whose id has a tool result in the
  transcript. The content of that message is \<^verbatim>\<open>[Tool <name> result: <text>]\<close>, where
  \<^verbatim>\<open><text>\<close> is the result's text if it has at most 800 code units, its first 800 code
  units followed by U+2026 and \<^verbatim>\<open> (truncated)\<close> if it has more, and \<^verbatim>\<open>(no content)\<close> if
  the result has no text or has array content with empty text.
\<close>

theorem textified_result_text_embedded:
  assumes "textifiedBlocks a \<noteq> []"
  shows "\<exists>before users after.
           deref (pre @ a # post) (textifyToolCallRounds rt (pre @ a # post))
             = before @ textifiedAssistant rt a # users @ after
         \<and> list_all isUserText users
         \<and> map (\<lambda>u. getProp u ''content'') users = convertedContents rt (pre @ a # post) a"
proof -
  let ?msgs = "pre @ a # post"
  let ?tbl = "collectToolResults [] ?msgs"
  let ?st0 = "textifyLoop rt ?tbl textify_init pre"
  let ?st1 = "textifyTurn rt ?tbl a ?st0"
  let ?fin = "textifyLoop rt ?tbl textify_init ?msgs"
  have fin: "?fin = textifyLoop rt ?tbl ?st1 post"
    by (simp add: textifyLoop_append textifyLoop_turn [OF assms])
  have "tx_changed ?st1" by (rule textifyTurn_changed [OF assms])
  then have "tx_changed ?fin"
    unfolding fin by (rule textifyLoop_changed_mono)
  then have out: "deref ?msgs (textifyToolCallRounds rt ?msgs) = tx_out ?fin"
    by (simp add: textifyToolCallRounds_def Let_def)
  obtain after where after: "tx_out ?fin = tx_out ?st1 @ after"
    unfolding fin using textifyLoop_prefix [of rt ?tbl ?st1 post] by blast
  obtain users where users: "tx_out ?st1 = tx_out ?st0 @ textifiedAssistant rt a # users"
    "list_all isUserText users"
    "map (\<lambda>u. getProp u ''content'') users = convertedContents rt ?msgs a"
    using textifyTurn_out [OF assms, of rt ?msgs ?st0] by blast
  have "deref ?msgs (textifyToolCallRounds rt ?msgs)
      = tx_out ?st0 @ textifiedAssistant rt a # users @ after"
    using out after users(1) by simp
  then show ?thesis using users(2,3) by blast
qed

lemmas embedded_defs =
  convertedContents_def convertedContent_def consumedResult_def firstResult_def
  embeddedText_def resultText_def hasStringContent_def textifiedBlocks_def
  isTextifiedBlock_def isToolCallBlock_def TOOL_CALL_TYPES_def toolCallName_def
  interpolate_def extractToolResultId_def isToolResultMsg_def isAssistantMsg_def
  sampleLongResult_def sampleBlockResult_def

text \<open>
  Two instances: a result whose text has 801 code units, and a result whose text is
  \<^verbatim>\<open>x\<close>.
\<close>

theorem textified_result_text_embedded_witness:
  "textifiedBlocks (sampleAssistant [sampleCall ''a'']) \<noteq> []
   \<and> (\<exists>before users after.
         deref ([] @ sampleAssistant [sampleCall ''a''] # [sampleLongResult ''a''])
           (textifyToolCallRounds sampleRuntime
              ([] @ sampleAssistant [sampleCall ''a''] # [sampleLongResult ''a'']))
           = before @ textifiedAssistant sampleRuntime (sampleAssistant [sampleCall ''a''])
               # users @ after
       \<and> list_all isUserText users
       \<and> map (\<lambda>u. getProp u ''content'') users
           = [JStr (ascii ''[Tool read result: '' @ replicate 800 0x78
                    @ 0x2026 # ascii '' (truncated)]'')])
   \<and> (\<exists>before users after.
         deref ([] @ sampleAssistant [sampleCall ''a''] # [sampleResult ''a'' ''x''])
           (textifyToolCallRounds sampleRuntime
              ([] @ sampleAssistant [sampleCall ''a''] # [sampleResult ''a'' ''x'']))
           = before @ textifiedAssistant sampleRuntime (sampleAssistant [sampleCall ''a''])
               # users @ after
       \<and> list_all isUserText users
       \<and> map (\<lambda>u. getProp u ''content'') users = [JStr (ascii ''[Tool read result: x]'')])"
  using textified_result_text_embedded
      [where a = "sampleAssistant [sampleCall ''a'']" and pre = "[]"
         and post = "[sampleLongResult ''a'']" and rt = sampleRuntime]
    textified_result_text_embedded
      [where a = "sampleAssistant [sampleCall ''a'']" and pre = "[]"
         and post = "[sampleResult ''a'' ''x'']" and rt = sampleRuntime]
  by (simp add: embedded_defs sample_defs List.map_filter_simps ascii_append)

text \<open>
  The claim as stated fails on a result whose array content holds one text block with the
  empty text: the text has length 0, and what the converted message embeds is
  \<^verbatim>\<open>(no content)\<close>.
\<close>

theorem empty_result_text_replaced:
  "resultText (sampleBlockResult ''a'' '''') = Some []
   \<and> textifyToolCallRounds sampleRuntime
        [sampleAssistant [sampleCall ''a''], sampleBlockResult ''a'' '''']
     = NewArray
         [JObj [(''role'', JStr (ascii ''assistant'')),
                (''content'',
                 JArr [JObj [(''type'', JStr (ascii ''text'')),
                             (''text'', JStr (ascii ''[Called tool read({})]''))]])],
          JObj [(''role'', JStr (ascii ''user'')),
                (''content'', JStr (ascii ''[Tool read result: (no content)]'')),
                (''timestamp'', JNum (sampleClock 0))]]"
  by (simp add: textify_defs textifyLoop.simps sample_defs sampleBlockResult_def resultText_def
      sampleRuntime_def ascii_append)

text \<open>The run on the result of 801 code units.\<close>

lemma textify_long_result_run:
  "textifyToolCallRounds sampleRuntime
        [sampleAssistant [sampleCall ''a''], sampleLongResult ''a'']
     = NewArray
         [JObj [(''role'', JStr (ascii ''assistant'')),
                (''content'',
                 JArr [JObj [(''type'', JStr (ascii ''text'')),
                             (''text'', JStr (ascii ''[Called tool read({})]''))]])],
          JObj [(''role'', JStr (ascii ''user'')),
                (''content'', JStr (ascii ''[Tool read result: '' @ replicate 800 0x78
                                    @ 0x2026 # ascii '' (truncated)]'')),
                (''timestamp'', JNum (sampleClock 0))]]"
  by (simp add: textify_defs textifyLoop.simps sample_defs sampleLongResult_def
      sampleRuntime_def TRUNCATION_MARKER_def ascii_append)

end
